theory Spec2Isabelle
  imports Complex_Main "HOL-Library.Product_Lexorder"
begin

section \<open>Python strings\<close>

text \<open>
  A Python \<open>str\<close> is a sequence of Unicode code points. It is modelled as a list of
  code points (\<open>nat\<close>), so that \<open>len\<close>, slicing and the whitespace tests count what
  Python counts. \<open>py\<close> turns a literal into such a string.
\<close>

type_synonym pystr = "nat list"

definition py :: "string \<Rightarrow> pystr" where
  "py s = map of_char s"

definition isspace :: "nat \<Rightarrow> bool" where
  \<comment> \<open>the code points for which \<open>str.isspace\<close> holds; \<open>split()\<close> and \<open>strip()\<close> use the same test\<close>
  "isspace c \<longleftrightarrow>
     (9 \<le> c \<and> c \<le> 13) \<or> (28 \<le> c \<and> c \<le> 32) \<or> c = 133 \<or> c = 160 \<or> c = 5760 \<or>
     (8192 \<le> c \<and> c \<le> 8202) \<or> c = 8232 \<or> c = 8233 \<or> c = 8239 \<or> c = 8287 \<or> c = 12288"

definition str_strip :: "pystr \<Rightarrow> pystr" where
  \<comment> \<open>\<open>s.strip()\<close>\<close>
  "str_strip s = rev (dropWhile isspace (rev (dropWhile isspace s)))"

fun split_from :: "pystr \<Rightarrow> pystr \<Rightarrow> pystr list" where
  \<comment> \<open>the scan of \<open>s.split()\<close>: \<open>w\<close> is the word being read\<close>
  "split_from w [] = (if w = [] then [] else [w])"
| "split_from w (c # cs) =
     (if isspace c then (if w = [] then split_from [] cs else w # split_from [] cs)
      else split_from (w @ [c]) cs)"

definition str_split :: "pystr \<Rightarrow> pystr list" where
  \<comment> \<open>\<open>s.split()\<close>: the maximal runs of non-whitespace\<close>
  "str_split s = split_from [] s"

fun split_on_from :: "nat \<Rightarrow> pystr \<Rightarrow> pystr \<Rightarrow> pystr list" where
  \<comment> \<open>the scan of \<open>s.split(sep)\<close> for a one-character separator; empty pieces are kept\<close>
  "split_on_from sep w [] = [w]"
| "split_on_from sep w (c # cs) =
     (if c = sep then w # split_on_from sep [] cs else split_on_from sep (w @ [c]) cs)"

definition str_split_on :: "nat \<Rightarrow> pystr \<Rightarrow> pystr list" where
  "str_split_on sep s = split_on_from sep [] s"

fun str_join :: "pystr \<Rightarrow> pystr list \<Rightarrow> pystr" where
  \<comment> \<open>\<open>sep.join(xs)\<close>\<close>
  "str_join sep [] = []"
| "str_join sep [x] = x"
| "str_join sep (x # y # ys) = x @ sep @ str_join sep (y # ys)"

section \<open>Span Extractor\<close>

text \<open>
  The parsed document, as \<open>extract_with_pymupdf\<close> reads it: a document is a list of
  pages, \<open>page.get_text("dict")["blocks"]\<close> is a list of blocks, a block may lack
  \<open>"lines"\<close>, a line may lack \<open>"spans"\<close>, and a span may lack \<open>"text"\<close> and
  \<open>"angle"\<close>. A missing key is \<open>None\<close>; the code reads it with \<open>.get(key, default)\<close>.
  The angle is a Python number, modelled as a real.
\<close>

record span =
  span_text :: "pystr option"
  span_angle :: "real option"

type_synonym line = "span list option"
type_synonym block = "line list option"
type_synonym page = "block list"
type_synonym document = "page list"

definition get_or :: "'a option \<Rightarrow> 'a \<Rightarrow> 'a" where
  \<comment> \<open>\<open>d.get(key, default)\<close>\<close>
  "get_or v d = (case v of None \<Rightarrow> d | Some x \<Rightarrow> x)"

definition span_step :: "pystr \<times> pystr list \<Rightarrow> span \<Rightarrow> pystr \<times> pystr list" where
  \<comment> \<open>the body of the innermost loop, on the pair \<open>(text, tilted_words)\<close>\<close>
  "span_step st sp =
     (case st of (text, tilted_words) \<Rightarrow>
        let stext = str_strip (get_or (span_text sp) [])
        in if stext = [] then (text, tilted_words)
           else let angle = \<bar>get_or (span_angle sp) 0\<bar>;
                    tilted_words' = (if angle > 1 then tilted_words @ str_split stext
                                     else tilted_words)
                in (text @ py '' '' @ stext, tilted_words'))"

definition line_step :: "pystr \<times> pystr list \<Rightarrow> line \<Rightarrow> pystr \<times> pystr list" where
  "line_step st li = foldl span_step st (get_or li [])"

definition block_step :: "pystr \<times> pystr list \<Rightarrow> block \<Rightarrow> pystr \<times> pystr list" where
  "block_step st bl = foldl line_step st (get_or bl [])"

definition page_step :: "pystr \<times> pystr list \<Rightarrow> page \<Rightarrow> pystr \<times> pystr list" where
  "page_step st pg = foldl block_step st pg"

definition extract_with_pymupdf :: "document \<Rightarrow> pystr \<times> pystr list" where
  "extract_with_pymupdf doc =
     (case foldl page_step ([], []) doc of (text, tilted_words) \<Rightarrow>
        (str_strip text, tilted_words))"

section \<open>Tilt Highlighter\<close>

definition mark :: "pystr \<Rightarrow> pystr" where
  "mark w = py ''<span style='color:green;font-weight:bold'>'' @ w @ py ''</span>''"

fun highlight_loop :: "pystr list \<Rightarrow> pystr list \<Rightarrow> pystr list \<Rightarrow> pystr list" where
  \<comment> \<open>\<open>for w in words\<close>, with the list \<open>out\<close> built so far\<close>
  "highlight_loop tilted_words out [] = out"
| "highlight_loop tilted_words out (w # ws) =
     highlight_loop tilted_words
       (if w \<in> set tilted_words then out @ [mark w] else out @ [w]) ws"

definition highlight_tilted :: "pystr \<Rightarrow> pystr list \<Rightarrow> pystr" where
  "highlight_tilted text tilted_words =
     str_join (py '' '') (highlight_loop tilted_words [] (str_split text))"

section \<open>Sentence Aligner\<close>

definition sentences :: "pystr \<Rightarrow> pystr list" where
  \<comment> \<open>\<open>[s.strip() for s in text.split('.') if s.strip()]\<close>\<close>
  "sentences text = map str_strip (filter (\<lambda>s. str_strip s \<noteq> []) (str_split_on 46 text))"

definition pad :: "nat \<Rightarrow> pystr list \<Rightarrow> pystr list" where
  \<comment> \<open>\<open>xs += [""] * (max_len - len(xs))\<close>; a count that is not positive adds nothing\<close>
  "pad max_len xs = xs @ replicate (max_len - length xs) []"

definition sentence_pairs :: "pystr \<Rightarrow> pystr \<Rightarrow> (pystr \<times> pystr) list" where
  "sentence_pairs combined_text corrected_text =
     (let original_sentences = sentences combined_text;
          corrected_sentences = sentences corrected_text;
          max_len = max (length original_sentences) (length corrected_sentences)
      in zip (pad max_len original_sentences) (pad max_len corrected_sentences))"

section \<open>Diff Engine: \<open>difflib.ndiff\<close>\<close>

text \<open>
  Lines 76 and 118 call \<open>difflib.ndiff\<close> of the Python standard library on two lists of
  words. The functions below follow \<open>Lib/difflib.py\<close> of CPython 3.11, method by method:
  \<open>SequenceMatcher\<close> (\<open>__chain_b\<close>, \<open>find_longest_match\<close>, \<open>get_matching_blocks\<close>,
  \<open>get_opcodes\<close>, \<open>ratio\<close>, \<open>quick_ratio\<close>, \<open>real_quick_ratio\<close>) and \<open>Differ\<close> (\<open>compare\<close>,
  \<open>_dump\<close>, \<open>_plain_replace\<close>, \<open>_fancy_replace\<close>, \<open>_fancy_helper\<close>, \<open>_qformat\<close>). A generator
  is the list of what it yields. A sequence is a list, of words for the outer matcher and
  of code points for the matcher that compares two words.

  \<open>__chain_b\<close> maps an element of \<open>b\<close> to the increasing list of its positions, without the
  junk elements and, when \<open>b\<close> has 200 elements or more, without the elements that occur
  more than \<open>len(b) // 100 + 1\<close> times (\<open>autojunk\<close> is on by default).
\<close>

definition indices_of :: "'a list \<Rightarrow> 'a \<Rightarrow> nat list" where
  "indices_of b x = filter (\<lambda>j. b ! j = x) [0..<length b]"

definition popular :: "'a list \<Rightarrow> 'a \<Rightarrow> bool" where
  "popular b x \<longleftrightarrow> length b \<ge> 200 \<and> length (indices_of b x) > length b div 100 + 1"

definition b2j :: "('a \<Rightarrow> bool) \<Rightarrow> 'a list \<Rightarrow> 'a \<Rightarrow> nat list" where
  "b2j isjunk b x = (if isjunk x \<or> popular b x then [] else indices_of b x)"

definition isbjunk :: "('a \<Rightarrow> bool) \<Rightarrow> 'a list \<Rightarrow> 'a \<Rightarrow> bool" where
  "isbjunk isjunk b x \<longleftrightarrow> x \<in> set b \<and> isjunk x"

text \<open>
  \<open>find_longest_match\<close>: for each \<open>i\<close> the row \<open>newj2len\<close> gives, at \<open>j\<close>, the length of the
  longest match that ends at \<open>a[i]\<close> and \<open>b[j]\<close>; the inner loop skips the positions
  before \<open>blo\<close> and stops at the first one from \<open>bhi\<close> on. The four \<open>while\<close> loops that
  follow extend the best match to the left and to the right, first over elements that are
  not junk and then over junk.
\<close>

type_synonym best = "nat \<times> nat \<times> nat"

fun inner_loop ::
  "nat \<Rightarrow> nat \<Rightarrow> nat \<Rightarrow> (nat \<rightharpoonup> nat) \<Rightarrow> nat list \<Rightarrow> (nat \<rightharpoonup> nat) \<times> best \<Rightarrow> (nat \<rightharpoonup> nat) \<times> best" where
  "inner_loop blo bhi i j2len [] st = st"
| "inner_loop blo bhi i j2len (j # js) (newj2len, besti, bestj, bestsize) =
     (if j < blo then inner_loop blo bhi i j2len js (newj2len, besti, bestj, bestsize)
      else if j \<ge> bhi then (newj2len, besti, bestj, bestsize)
      else let k = (if j = 0 then 0 else get_or (j2len (j - 1)) 0) + 1;
               newj2len' = newj2len(j \<mapsto> k)
           in if k > bestsize
              then inner_loop blo bhi i j2len js (newj2len', i + 1 - k, j + 1 - k, k)
              else inner_loop blo bhi i j2len js (newj2len', besti, bestj, bestsize))"

definition outer_step ::
  "('a \<Rightarrow> bool) \<Rightarrow> 'a list \<Rightarrow> 'a list \<Rightarrow> nat \<Rightarrow> nat \<Rightarrow> (nat \<rightharpoonup> nat) \<times> best \<Rightarrow> nat \<Rightarrow> (nat \<rightharpoonup> nat) \<times> best" where
  "outer_step isjunk a b blo bhi st i =
     (case st of (j2len, bst) \<Rightarrow>
        inner_loop blo bhi i j2len (b2j isjunk b (a ! i)) (Map.empty, bst))"

function extend_left ::
  "bool \<Rightarrow> ('a \<Rightarrow> bool) \<Rightarrow> 'a list \<Rightarrow> 'a list \<Rightarrow> nat \<Rightarrow> nat \<Rightarrow> best \<Rightarrow> best" where
  "extend_left junk isjunk a b alo blo (besti, bestj, bestsize) =
     (if besti > alo \<and> bestj > blo \<and> isbjunk isjunk b (b ! (bestj - 1)) = junk
         \<and> a ! (besti - 1) = b ! (bestj - 1)
      then extend_left junk isjunk a b alo blo (besti - 1, bestj - 1, bestsize + 1)
      else (besti, bestj, bestsize))"
  by pat_completeness auto
termination
  by (relation "measure (\<lambda>(junk, isjunk, a, b, alo, blo, besti, bestj, bestsize). besti)") auto

function extend_right ::
  "bool \<Rightarrow> ('a \<Rightarrow> bool) \<Rightarrow> 'a list \<Rightarrow> 'a list \<Rightarrow> nat \<Rightarrow> nat \<Rightarrow> best \<Rightarrow> best" where
  "extend_right junk isjunk a b ahi bhi (besti, bestj, bestsize) =
     (if besti + bestsize < ahi \<and> bestj + bestsize < bhi
         \<and> isbjunk isjunk b (b ! (bestj + bestsize)) = junk
         \<and> a ! (besti + bestsize) = b ! (bestj + bestsize)
      then extend_right junk isjunk a b ahi bhi (besti, bestj, bestsize + 1)
      else (besti, bestj, bestsize))"
  by pat_completeness auto
termination
  by (relation "measure (\<lambda>(junk, isjunk, a, b, ahi, bhi, besti, bestj, bestsize). ahi - (besti + bestsize))") auto

declare extend_left.simps [simp del] extend_right.simps [simp del]

definition find_longest_match ::
  "('a \<Rightarrow> bool) \<Rightarrow> 'a list \<Rightarrow> 'a list \<Rightarrow> nat \<Rightarrow> nat \<Rightarrow> nat \<Rightarrow> nat \<Rightarrow> best" where
  "find_longest_match isjunk a b alo ahi blo bhi =
     (let bst = snd (foldl (outer_step isjunk a b blo bhi) (Map.empty, (alo, blo, 0)) [alo..<ahi]);
          bst = extend_left False isjunk a b alo blo bst;
          bst = extend_right False isjunk a b ahi bhi bst;
          bst = extend_left True isjunk a b alo blo bst;
          bst = extend_right True isjunk a b ahi bhi bst
      in bst)"

subsection \<open>The longest match lies inside the window\<close>

text \<open>
  \<open>get_matching_blocks\<close> loops until its queue of windows is empty; it ends because a
  match that is not empty lies inside its window, so that the windows left and right of it
  are smaller. This is what the next lemmas establish.
\<close>

definition row_ok :: "nat \<Rightarrow> nat \<Rightarrow> nat \<Rightarrow> nat \<Rightarrow> (nat \<rightharpoonup> nat) \<Rightarrow> bool" where
  "row_ok alo blo bhi n m \<longleftrightarrow>
     (\<forall>j k. m j = Some k \<longrightarrow> blo \<le> j \<and> j < bhi \<and> 1 \<le> k \<and> k + blo \<le> j + 1 \<and> k + alo \<le> n)"

definition best_ok :: "nat \<Rightarrow> nat \<Rightarrow> nat \<Rightarrow> nat \<Rightarrow> best \<Rightarrow> bool" where
  "best_ok alo ahi blo bhi bst \<longleftrightarrow>
     (case bst of (bi, bj, bs) \<Rightarrow>
        alo \<le> bi \<and> blo \<le> bj \<and> (bs = 0 \<longrightarrow> bi = alo \<and> bj = blo)
        \<and> (bs > 0 \<longrightarrow> bi + bs \<le> ahi \<and> bj + bs \<le> bhi))"

lemma inner_loop_ok:
  assumes "row_ok alo blo bhi i j2len" "alo \<le> i" "i < ahi"
    and "row_ok alo blo bhi (i + 1) (fst st)" "best_ok alo ahi blo bhi (snd st)"
  shows "row_ok alo blo bhi (i + 1) (fst (inner_loop blo bhi i j2len js st))
       \<and> best_ok alo ahi blo bhi (snd (inner_loop blo bhi i j2len js st))"
  using assms(4,5)
proof (induction js arbitrary: st)
  case Nil
  then show ?case by simp
next
  case (Cons j js)
  obtain m bi bj bs where st: "st = (m, bi, bj, bs)" by (cases st) auto
  show ?case
  proof (cases "j < blo")
    case True
    then show ?thesis using Cons st by simp
  next
    case lo: False
    show ?thesis
    proof (cases "j \<ge> bhi")
      case True
      then show ?thesis using Cons.prems lo st by simp
    next
      case hi: False
      define k where "k = (if j = 0 then 0 else get_or (j2len (j - 1)) 0) + 1"
      have k1: "1 \<le> k" by (simp add: k_def)
      have kb: "k + blo \<le> j + 1 \<and> k + alo \<le> i + 1"
      proof (cases "j = 0 \<or> j2len (j - 1) = None")
        case True
        then have "k = 1" by (auto simp: k_def get_or_def)
        then show ?thesis using lo assms(2) by simp
      next
        case False
        then obtain k' where k': "j2len (j - 1) = Some k'" "j \<noteq> 0" by auto
        then have "k = k' + 1" by (simp add: k_def get_or_def)
        moreover have "k' + blo \<le> (j - 1) + 1 \<and> k' + alo \<le> i"
          using assms(1) k'(1) by (simp add: row_ok_def)
        ultimately show ?thesis using k'(2) by simp
      qed
      have row': "row_ok alo blo bhi (i + 1) (m(j \<mapsto> k))"
        using Cons.prems(1) st lo hi k1 kb by (auto simp: row_ok_def)
      have "alo \<le> i + 1 - k" "blo \<le> j + 1 - k" "i + 1 - k + k \<le> ahi" "j + 1 - k + k \<le> bhi"
        using k1 kb hi assms(3) by arith+
      then have best': "best_ok alo ahi blo bhi (i + 1 - k, j + 1 - k, k)"
        using k1 by (simp add: best_ok_def)
      show ?thesis
      proof (cases "k > bs")
        case True
        have "inner_loop blo bhi i j2len (j # js) st
            = inner_loop blo bhi i j2len js (m(j \<mapsto> k), i + 1 - k, j + 1 - k, k)"
          using st lo hi True by (simp add: k_def Let_def)
        moreover have "row_ok alo blo bhi (i + 1)
              (fst (inner_loop blo bhi i j2len js (m(j \<mapsto> k), i + 1 - k, j + 1 - k, k)))
            \<and> best_ok alo ahi blo bhi
              (snd (inner_loop blo bhi i j2len js (m(j \<mapsto> k), i + 1 - k, j + 1 - k, k)))"
          by (rule Cons.IH) (simp_all only: fst_conv snd_conv row' best')
        ultimately show ?thesis by (simp only:)
      next
        case False
        have "inner_loop blo bhi i j2len (j # js) st
            = inner_loop blo bhi i j2len js (m(j \<mapsto> k), bi, bj, bs)"
          using st lo hi False by (simp add: k_def Let_def)
        moreover have "best_ok alo ahi blo bhi (bi, bj, bs)"
          using Cons.prems(2) st by simp
        then have "row_ok alo blo bhi (i + 1)
              (fst (inner_loop blo bhi i j2len js (m(j \<mapsto> k), bi, bj, bs)))
            \<and> best_ok alo ahi blo bhi
              (snd (inner_loop blo bhi i j2len js (m(j \<mapsto> k), bi, bj, bs)))"
          by - (rule Cons.IH, simp_all only: fst_conv snd_conv row')
        ultimately show ?thesis by (simp only:)
      qed
    qed
  qed
qed

lemma outer_step_ok:
  assumes "row_ok alo blo bhi i (fst st)" "best_ok alo ahi blo bhi (snd st)" "alo \<le> i" "i < ahi"
  shows "row_ok alo blo bhi (i + 1) (fst (outer_step isjunk a b blo bhi st i))
       \<and> best_ok alo ahi blo bhi (snd (outer_step isjunk a b blo bhi st i))"
proof -
  obtain m bst where st: "st = (m, bst)" by (cases st) auto
  have "row_ok alo blo bhi (i + 1) Map.empty" by (simp add: row_ok_def)
  then show ?thesis
    using inner_loop_ok [of alo blo bhi i m ahi "(Map.empty, bst)" "b2j isjunk b (a ! i)"] assms st
    by (simp add: outer_step_def)
qed

lemma outer_loop_ok:
  assumes "row_ok alo blo bhi i (fst st)" "best_ok alo ahi blo bhi (snd st)" "alo \<le> i"
  shows "best_ok alo ahi blo bhi (snd (foldl (outer_step isjunk a b blo bhi) st [i..<ahi]))"
  using assms
proof (induction "ahi - i" arbitrary: i st)
  case 0
  then show ?case by simp
next
  case (Suc n)
  then have lt: "i < ahi" by simp
  have "[i..<ahi] = i # [Suc i..<ahi]" using lt by (simp add: upt_conv_Cons)
  then have "foldl (outer_step isjunk a b blo bhi) st [i..<ahi]
      = foldl (outer_step isjunk a b blo bhi) (outer_step isjunk a b blo bhi st i) [Suc i..<ahi]"
    by simp
  moreover have "best_ok alo ahi blo bhi
      (snd (foldl (outer_step isjunk a b blo bhi) (outer_step isjunk a b blo bhi st i) [Suc i..<ahi]))"
  proof (rule Suc.hyps(1))
    show "n = ahi - Suc i" using Suc.hyps(2) by simp
    show "row_ok alo blo bhi (Suc i) (fst (outer_step isjunk a b blo bhi st i))"
      using outer_step_ok [OF Suc.prems(1,2,3) lt, of isjunk a b] by simp
    show "best_ok alo ahi blo bhi (snd (outer_step isjunk a b blo bhi st i))"
      using outer_step_ok [OF Suc.prems(1,2,3) lt, of isjunk a b] by simp
    show "alo \<le> Suc i" using Suc.prems(3) by simp
  qed
  ultimately show ?case by simp
qed

lemma extend_left_ok:
  "best_ok alo ahi blo bhi bst \<Longrightarrow> best_ok alo ahi blo bhi (extend_left junk isjunk a b alo blo bst)"
proof (induction junk isjunk a b alo blo bst rule: extend_left.induct)
  case (1 junk isjunk a b alo blo besti bestj bestsize)
  show ?case
  proof (cases "besti > alo \<and> bestj > blo \<and> isbjunk isjunk b (b ! (bestj - 1)) = junk
         \<and> a ! (besti - 1) = b ! (bestj - 1)")
    case True
    have "best_ok alo ahi blo bhi (besti - 1, bestj - 1, bestsize + 1)"
      using "1.prems" True by (auto simp: best_ok_def)
    then show ?thesis using "1.IH" True by (subst extend_left.simps) simp
  next
    case False
    then show ?thesis using "1.prems" by (subst extend_left.simps) auto
  qed
qed

lemma extend_right_ok:
  "best_ok alo ahi blo bhi bst \<Longrightarrow> best_ok alo ahi blo bhi (extend_right junk isjunk a b ahi bhi bst)"
proof (induction junk isjunk a b ahi bhi bst rule: extend_right.induct)
  case (1 junk isjunk a b ahi bhi besti bestj bestsize)
  show ?case
  proof (cases "besti + bestsize < ahi \<and> bestj + bestsize < bhi
         \<and> isbjunk isjunk b (b ! (bestj + bestsize)) = junk
         \<and> a ! (besti + bestsize) = b ! (bestj + bestsize)")
    case True
    have "best_ok alo ahi blo bhi (besti, bestj, bestsize + 1)"
      using "1.prems" True by (auto simp: best_ok_def)
    then show ?thesis using "1.IH" True by (subst extend_right.simps) simp
  next
    case False
    then show ?thesis using "1.prems" by (subst extend_right.simps) auto
  qed
qed

lemma find_longest_match_ok:
  "best_ok alo ahi blo bhi (find_longest_match isjunk a b alo ahi blo bhi)"
proof -
  have "best_ok alo ahi blo bhi
      (snd (foldl (outer_step isjunk a b blo bhi) (Map.empty, (alo, blo, 0)) [alo..<ahi]))"
    by (rule outer_loop_ok) (simp_all add: row_ok_def best_ok_def)
  then show ?thesis
    unfolding find_longest_match_def Let_def
    by (intro extend_right_ok extend_left_ok)
qed

lemma find_longest_match_bounds:
  assumes "find_longest_match isjunk a b alo ahi blo bhi = (i, j, k)"
  shows "alo \<le> i \<and> blo \<le> j \<and> (k > 0 \<longrightarrow> i + k \<le> ahi \<and> j + k \<le> bhi)"
  using find_longest_match_ok [of alo ahi blo bhi isjunk a b] assms by (simp add: best_ok_def)

subsection \<open>Matching blocks and opcodes\<close>

text \<open>
  The queue of \<open>get_matching_blocks\<close> is a Python list used as a stack: \<open>pop()\<close> takes
  the window appended last, so the head of the list below is the top of the stack. The
  blocks are sorted as tuples, and adjacent blocks are merged.
\<close>

function match_loop ::
  "('a \<Rightarrow> bool) \<Rightarrow> 'a list \<Rightarrow> 'a list \<Rightarrow> (nat \<times> nat \<times> nat \<times> nat) list \<Rightarrow> best list \<Rightarrow> best list" where
  "match_loop isjunk a b [] matching_blocks = matching_blocks"
| "match_loop isjunk a b ((alo, ahi, blo, bhi) # queue) matching_blocks =
     (case find_longest_match isjunk a b alo ahi blo bhi of (i, j, k) \<Rightarrow>
        if k \<noteq> 0
        then match_loop isjunk a b
               ((if i + k < ahi \<and> j + k < bhi then [(i + k, ahi, j + k, bhi)] else [])
                @ (if alo < i \<and> blo < j then [(alo, i, blo, j)] else []) @ queue)
               (matching_blocks @ [(i, j, k)])
        else match_loop isjunk a b queue matching_blocks)"
  by pat_completeness auto
termination
  apply (relation "measure (\<lambda>(isjunk, a, b, queue, matching_blocks).
    sum_list (map (\<lambda>(alo, ahi, blo, bhi). (ahi - alo) + (bhi - blo) + 1) queue))")
    apply simp
  subgoal for isjunk a b alo ahi blo bhi queue matching_blocks i y j k
    using find_longest_match_bounds [of isjunk a b alo ahi blo bhi i j k]
    by auto
  subgoal by simp
  done

definition collapse_step :: "best \<times> best list \<Rightarrow> best \<Rightarrow> best \<times> best list" where
  "collapse_step st blk =
     (case st of ((i1, j1, k1), non_adjacent) \<Rightarrow>
      case blk of (i2, j2, k2) \<Rightarrow>
        if i1 + k1 = i2 \<and> j1 + k1 = j2 then ((i1, j1, k1 + k2), non_adjacent)
        else ((i2, j2, k2), if k1 \<noteq> 0 then non_adjacent @ [(i1, j1, k1)] else non_adjacent))"

definition get_matching_blocks :: "('a \<Rightarrow> bool) \<Rightarrow> 'a list \<Rightarrow> 'a list \<Rightarrow> best list" where
  "get_matching_blocks isjunk a b =
     (let la = length a; lb = length b;
          matching_blocks = sort (match_loop isjunk a b [(0, la, 0, lb)] [])
      in case foldl collapse_step ((0, 0, 0), []) matching_blocks of
           ((i1, j1, k1), non_adjacent) \<Rightarrow>
             (if k1 \<noteq> 0 then non_adjacent @ [(i1, j1, k1)] else non_adjacent) @ [(la, lb, 0)])"

datatype tag = Replace | Delete | Insert | Equal

type_synonym opcode = "tag \<times> nat \<times> nat \<times> nat \<times> nat"

definition opcode_step :: "nat \<times> nat \<times> opcode list \<Rightarrow> best \<Rightarrow> nat \<times> nat \<times> opcode list" where
  "opcode_step st blk =
     (case st of (i, j, answer) \<Rightarrow>
      case blk of (ai, bj, sz) \<Rightarrow>
        let answer = (if i < ai \<and> j < bj then answer @ [(Replace, i, ai, j, bj)]
                      else if i < ai then answer @ [(Delete, i, ai, j, bj)]
                      else if j < bj then answer @ [(Insert, i, ai, j, bj)]
                      else answer);
            i = ai + sz; j = bj + sz
        in (i, j, if sz \<noteq> 0 then answer @ [(Equal, ai, i, bj, j)] else answer))"

definition get_opcodes :: "('a \<Rightarrow> bool) \<Rightarrow> 'a list \<Rightarrow> 'a list \<Rightarrow> opcode list" where
  "get_opcodes isjunk a b =
     snd (snd (foldl opcode_step (0, 0, []) (get_matching_blocks isjunk a b)))"

subsection \<open>Similarity of two words\<close>

text \<open>
  The three ratios are \<open>2.0 * matches / length\<close>. They are Python floats, compared with
  each other and with the constants 0.74 and 0.75; they are modelled as rationals, which
  orders them as the floats are ordered as long as the words are shorter than \<open>2^26\<close>
  characters (two different ratios then differ by more than the rounding error).
\<close>

definition calculate_ratio :: "nat \<Rightarrow> nat \<Rightarrow> rat" where
  "calculate_ratio matches len = (if len \<noteq> 0 then 2 * of_nat matches / of_nat len else 1)"

definition ratio :: "('a \<Rightarrow> bool) \<Rightarrow> 'a list \<Rightarrow> 'a list \<Rightarrow> rat" where
  "ratio isjunk a b =
     calculate_ratio (sum_list (map (\<lambda>(i, j, k). k) (get_matching_blocks isjunk a b)))
       (length a + length b)"

definition quick_step :: "'a list \<Rightarrow> ('a \<rightharpoonup> int) \<times> nat \<Rightarrow> 'a \<Rightarrow> ('a \<rightharpoonup> int) \<times> nat" where
  "quick_step b st elt =
     (case st of (avail, matches) \<Rightarrow>
        let numb = (case avail elt of Some n \<Rightarrow> n | None \<Rightarrow> int (count_list b elt))
        in (avail(elt \<mapsto> numb - 1), if numb > 0 then matches + 1 else matches))"

definition quick_ratio :: "'a list \<Rightarrow> 'a list \<Rightarrow> rat" where
  "quick_ratio a b =
     calculate_ratio (snd (foldl (quick_step b) (Map.empty, 0) a)) (length a + length b)"

definition real_quick_ratio :: "'a list \<Rightarrow> 'a list \<Rightarrow> rat" where
  "real_quick_ratio a b =
     (let la = length a; lb = length b in calculate_ratio (min la lb) (la + lb))"

subsection \<open>\<open>Differ\<close>\<close>

text \<open>
  \<open>ndiff(a, b)\<close> is \<open>Differ(None, IS_CHARACTER_JUNK).compare(a, b)\<close>. A line of the result is
  a two-character prefix and a word: \<open>"  "\<close> for a word of both lists, \<open>"- "\<close> for a word
  of \<open>a\<close> only, \<open>"+ "\<close> for a word of \<open>b\<close> only. Where a word of \<open>a\<close> is replaced by a similar
  word of \<open>b\<close> (ratio at least 0.75), \<open>_qformat\<close> adds lines that start with
  \<open>"? "\<close>, end with a newline and point at the characters that differ.

  \<open>search\<close> is the double loop of \<open>_fancy_replace\<close>, on the state
  \<open>(best_ratio, (best_i, best_j), (eqi, eqj))\<close>; \<open>synch\<close> is the decision that follows it:
  no synch point, the first pair of equal words, or the best pair of similar words.
\<close>

definition IS_CHARACTER_JUNK :: "nat \<Rightarrow> bool" where
  "IS_CHARACTER_JUNK ch \<longleftrightarrow> ch \<in> set (py '' '' @ [9])"

definition keep_original_ws :: "pystr \<Rightarrow> pystr \<Rightarrow> pystr" where
  "keep_original_ws s tag_s =
     map (\<lambda>(c, tag_c). if tag_c = 32 \<and> isspace c then c else tag_c) (zip s tag_s)"

definition str_rstrip :: "pystr \<Rightarrow> pystr" where
  "str_rstrip s = rev (dropWhile isspace (rev s))"

definition dump :: "pystr \<Rightarrow> pystr list \<Rightarrow> nat \<Rightarrow> nat \<Rightarrow> pystr list" where
  "dump tg x lo hi = map (\<lambda>i. tg @ py '' '' @ x ! i) [lo..<hi]"

definition plain_replace :: "pystr list \<Rightarrow> nat \<Rightarrow> nat \<Rightarrow> pystr list \<Rightarrow> nat \<Rightarrow> nat \<Rightarrow> pystr list" where
  "plain_replace a alo ahi b blo bhi =
     (if bhi - blo < ahi - alo then dump (py ''+'') b blo bhi @ dump (py ''-'') a alo ahi
      else dump (py ''-'') a alo ahi @ dump (py ''+'') b blo bhi)"

definition qformat :: "pystr \<Rightarrow> pystr \<Rightarrow> pystr \<Rightarrow> pystr \<Rightarrow> pystr list" where
  "qformat aline bline atags btags =
     (let atags = str_rstrip (keep_original_ws aline atags);
          btags = str_rstrip (keep_original_ws bline btags)
      in [py ''- '' @ aline]
         @ (if atags \<noteq> [] then [py ''? '' @ atags @ [10]] else [])
         @ [py ''+ '' @ bline]
         @ (if btags \<noteq> [] then [py ''? '' @ btags @ [10]] else []))"

definition tags_step :: "pystr \<times> pystr \<Rightarrow> opcode \<Rightarrow> pystr \<times> pystr" where
  "tags_step st oc =
     (case st of (atags, btags) \<Rightarrow>
      case oc of (tg, ai1, ai2, bj1, bj2) \<Rightarrow>
        let la = ai2 - ai1; lb = bj2 - bj1
        in case tg of
             Replace \<Rightarrow> (atags @ replicate la 94, btags @ replicate lb 94)
           | Delete \<Rightarrow> (atags @ replicate la 45, btags)
           | Insert \<Rightarrow> (atags, btags @ replicate lb 43)
           | Equal \<Rightarrow> (atags @ replicate la 32, btags @ replicate lb 32))"

type_synonym search_state = "rat \<times> (nat \<times> nat) option \<times> (nat \<times> nat) option"

definition search_step :: "pystr list \<Rightarrow> pystr list \<Rightarrow> nat \<Rightarrow> search_state \<Rightarrow> nat \<Rightarrow> search_state" where
  "search_step a b j st i =
     (case st of (best_ratio, best, eq) \<Rightarrow>
        let ai = a ! i; bj = b ! j
        in if ai = bj then (best_ratio, best, if eq = None then Some (i, j) else eq)
           else if real_quick_ratio ai bj > best_ratio \<and> quick_ratio ai bj > best_ratio
                   \<and> ratio IS_CHARACTER_JUNK ai bj > best_ratio
                then (ratio IS_CHARACTER_JUNK ai bj, Some (i, j), eq)
                else (best_ratio, best, eq))"

definition search :: "pystr list \<Rightarrow> nat \<Rightarrow> nat \<Rightarrow> pystr list \<Rightarrow> nat \<Rightarrow> nat \<Rightarrow> search_state" where
  "search a alo ahi b blo bhi =
     foldl (\<lambda>st j. foldl (search_step a b j) st [alo..<ahi]) (74 / 100, None, None) [blo..<bhi]"

definition synch :: "search_state \<Rightarrow> ((nat \<times> nat) \<times> bool) option" where
  "synch st =
     (case st of (best_ratio, best, eq) \<Rightarrow>
        if best_ratio < 75 / 100
        then (case eq of None \<Rightarrow> None | Some p \<Rightarrow> Some (p, True))
        else (case best of None \<Rightarrow> None | Some p \<Rightarrow> Some (p, False)))"

definition in_range :: "nat \<Rightarrow> nat \<Rightarrow> nat \<Rightarrow> nat \<Rightarrow> (nat \<times> nat) option \<Rightarrow> bool" where
  "in_range alo ahi blo bhi p \<longleftrightarrow>
     (case p of None \<Rightarrow> True | Some (i, j) \<Rightarrow> alo \<le> i \<and> i < ahi \<and> blo \<le> j \<and> j < bhi)"

lemma search_step_range:
  assumes "in_range alo ahi blo bhi (fst (snd st))" "in_range alo ahi blo bhi (snd (snd st))"
    "alo \<le> i" "i < ahi" "blo \<le> j" "j < bhi"
  shows "in_range alo ahi blo bhi (fst (snd (search_step a b j st i)))
       \<and> in_range alo ahi blo bhi (snd (snd (search_step a b j st i)))"
  using assms by (cases st) (auto simp: search_step_def Let_def in_range_def)

lemma search_inner_range:
  assumes "in_range alo ahi blo bhi (fst (snd st))" "in_range alo ahi blo bhi (snd (snd st))"
    "blo \<le> j" "j < bhi" "\<forall>i\<in>set is. alo \<le> i \<and> i < ahi"
  shows "in_range alo ahi blo bhi (fst (snd (foldl (search_step a b j) st is)))
       \<and> in_range alo ahi blo bhi (snd (snd (foldl (search_step a b j) st is)))"
  using assms
proof (induction "is" arbitrary: st)
  case Nil
  then show ?case by simp
next
  case (Cons i "is")
  have "in_range alo ahi blo bhi (fst (snd (search_step a b j st i)))
       \<and> in_range alo ahi blo bhi (snd (snd (search_step a b j st i)))"
    by (rule search_step_range) (use Cons.prems in auto)
  then show ?case using Cons.IH [of "search_step a b j st i"] Cons.prems by simp
qed

lemma search_outer_range:
  assumes "in_range alo ahi blo bhi (fst (snd st))" "in_range alo ahi blo bhi (snd (snd st))"
    "\<forall>j\<in>set js. blo \<le> j \<and> j < bhi"
  shows "in_range alo ahi blo bhi
           (fst (snd (foldl (\<lambda>st j. foldl (search_step a b j) st [alo..<ahi]) st js)))
       \<and> in_range alo ahi blo bhi
           (snd (snd (foldl (\<lambda>st j. foldl (search_step a b j) st [alo..<ahi]) st js)))"
  using assms
proof (induction js arbitrary: st)
  case Nil
  then show ?case by simp
next
  case (Cons j js)
  have "in_range alo ahi blo bhi (fst (snd (foldl (search_step a b j) st [alo..<ahi])))
       \<and> in_range alo ahi blo bhi (snd (snd (foldl (search_step a b j) st [alo..<ahi])))"
    by (rule search_inner_range) (use Cons.prems in auto)
  then show ?case using Cons.IH [of "foldl (search_step a b j) st [alo..<ahi]"] Cons.prems by simp
qed

lemma synch_range:
  assumes "synch (search a alo ahi b blo bhi) = Some ((i, j), e)"
  shows "alo \<le> i \<and> i < ahi \<and> blo \<le> j \<and> j < bhi"
proof -
  have r: "in_range alo ahi blo bhi (fst (snd (search a alo ahi b blo bhi)))
       \<and> in_range alo ahi blo bhi (snd (snd (search a alo ahi b blo bhi)))"
    unfolding search_def by (rule search_outer_range) (simp_all add: in_range_def)
  obtain r0 bst eq where s: "search a alo ahi b blo bhi = (r0, bst, eq)"
    by (cases "search a alo ahi b blo bhi") auto
  show ?thesis
    using assms r unfolding s
    by (auto simp: synch_def in_range_def split: if_splits option.splits)
qed

text \<open>
  \<open>_fancy_replace\<close> and \<open>_fancy_helper\<close> call each other on the windows left and right of
  the synch point, which lies inside the window: the recursion ends.
\<close>

function fancy_replace :: "pystr list \<Rightarrow> nat \<Rightarrow> nat \<Rightarrow> pystr list \<Rightarrow> nat \<Rightarrow> nat \<Rightarrow> pystr list"
  and fancy_helper :: "pystr list \<Rightarrow> nat \<Rightarrow> nat \<Rightarrow> pystr list \<Rightarrow> nat \<Rightarrow> nat \<Rightarrow> pystr list" where
  "fancy_replace a alo ahi b blo bhi =
     (case synch (search a alo ahi b blo bhi) of
        None \<Rightarrow> plain_replace a alo ahi b blo bhi
      | Some ((best_i, best_j), identical) \<Rightarrow>
          fancy_helper a alo best_i b blo best_j
          @ (let aelt = a ! best_i; belt = b ! best_j
             in if identical then [py ''  '' @ aelt]
                else case foldl tags_step ([], []) (get_opcodes IS_CHARACTER_JUNK aelt belt) of
                       (atags, btags) \<Rightarrow> qformat aelt belt atags btags)
          @ fancy_helper a (best_i + 1) ahi b (best_j + 1) bhi)"
| "fancy_helper a alo ahi b blo bhi =
     (if alo < ahi
      then (if blo < bhi then fancy_replace a alo ahi b blo bhi else dump (py ''-'') a alo ahi)
      else if blo < bhi then dump (py ''+'') b blo bhi
      else [])"
  by pat_completeness auto
termination
  apply (relation "measure (\<lambda>x. case x of
      Inl (a, alo, ahi, b, blo, bhi) \<Rightarrow> 2 * ((ahi - alo) + (bhi - blo))
    | Inr (a, alo, ahi, b, blo, bhi) \<Rightarrow> 2 * ((ahi - alo) + (bhi - blo)) + 1)")
     apply simp
  subgoal for a alo ahi b blo bhi x2 x y best_i best_j
    using synch_range [of a alo ahi b blo bhi best_i best_j y] by auto
  subgoal for a alo ahi b blo bhi x2 x y best_i best_j
    using synch_range [of a alo ahi b blo bhi best_i best_j y] by auto
  subgoal by simp
  done

declare fancy_replace.simps [simp del] fancy_helper.simps [simp del]

definition compare :: "pystr list \<Rightarrow> pystr list \<Rightarrow> pystr list" where
  "compare a b =
     concat (map (\<lambda>(tg, alo, ahi, blo, bhi).
                    case tg of
                      Replace \<Rightarrow> fancy_replace a alo ahi b blo bhi
                    | Delete \<Rightarrow> dump (py ''-'') a alo ahi
                    | Insert \<Rightarrow> dump (py ''+'') b blo bhi
                    | Equal \<Rightarrow> dump (py '' '') a alo ahi)
                 (get_opcodes (\<lambda>_. False) a b))"

definition ndiff :: "pystr list \<Rightarrow> pystr list \<Rightarrow> pystr list" where
  "ndiff a b = compare a b"

section \<open>The application\<close>

text \<open>
  The script below \<open>if uploaded_file:\<close> (lines 54 to 127), as a function of the parsed
  document. The two external services are parameters: \<open>correct_text\<close> (TextBlob's
  spelling correction, lines 38 and 39) maps a string to a string, and \<open>extract_with_ocr\<close>
  (rendering and Tesseract, lines 33 to 36) returns the recognised string or raises.
  A raised exception is a value of \<open>py_error\<close>. A line of the agent report is kept as its
  data instead of the formatted string.

  Lines 63 to 68: the \<open>try\<close> block binds \<open>ocr_text\<close> only if \<open>doc[0]\<close> and
  \<open>extract_with_ocr\<close> both return; the \<open>except\<close> branch appends the report line and binds
  nothing. So after the block \<open>ocr_text\<close> is either bound to a string or unbound, which is
  the \<open>option\<close> below, and reading it unbound at line 71 raises \<open>NameError\<close>.
\<close>

datatype py_error = IndexError | NameError | Raised

datatype report_line =
    Agent1 nat "pystr list"
  | Agent2 nat
  | Agent2_Failed
  | Agent3 nat
  | Agent4 "pystr list" "pystr list" "pystr list"

record run =
  agent_report :: "report_line list"
  combined_text :: pystr
  corrected_text :: pystr
  diff_added :: "pystr list"
  diff_removed :: "pystr list"
  final_text_display :: pystr
  df_rows :: "(pystr \<times> pystr) list"
  html_rows :: "pystr list"

definition startswith :: "pystr \<Rightarrow> pystr \<Rightarrow> bool" where
  "startswith d p \<longleftrightarrow> take (length p) d = p"

definition summary_step :: "pystr list \<times> pystr list \<Rightarrow> pystr \<Rightarrow> pystr list \<times> pystr list" where
  \<comment> \<open>lines 79 to 82, on the pair \<open>(added, removed)\<close>\<close>
  "summary_step st d =
     (case st of (added, removed) \<Rightarrow>
        if startswith d (py ''+ '') then (added @ [drop 2 d], removed)
        else if startswith d (py ''- '') then (added, removed @ [drop 2 d])
        else (added, removed))"

definition diff_summary :: "pystr \<Rightarrow> pystr \<Rightarrow> pystr list \<times> pystr list" where
  "diff_summary combined corrected =
     foldl summary_step ([], []) (ndiff (str_split combined) (str_split corrected))"

definition render_step :: "pystr list \<Rightarrow> pystr \<Rightarrow> pystr list" where
  \<comment> \<open>lines 120 to 125\<close>
  "render_step diff_html d =
     (if startswith d (py ''+ '')
      then diff_html @ [py ''<span style='color:green'>'' @ drop 2 d @ py ''</span>'']
      else if startswith d (py ''- '')
      then diff_html @ [py ''<span style='color:red'>'' @ drop 2 d @ py ''</span>'']
      else diff_html @ [drop 2 d])"

definition sentence_diff_html :: "pystr \<Rightarrow> pystr \<Rightarrow> pystr list" where
  "sentence_diff_html orig c = foldl render_step [] (ndiff (str_split orig) (str_split c))"

definition html_row :: "pystr list \<Rightarrow> pystr \<times> pystr \<Rightarrow> pystr" where
  \<comment> \<open>line 127\<close>
  "html_row tilted_words p =
     (case p of (orig, c) \<Rightarrow>
        py ''<p><b>Original:</b> '' @ highlight_tilted orig tilted_words
        @ py ''<br><b>Corrected:</b> '' @ highlight_tilted c tilted_words
        @ py ''<br><b>Diff:</b> '' @ str_join (py '' '') (sentence_diff_html orig c)
        @ py ''</p><hr>'')"

definition try_ocr :: "(page \<Rightarrow> py_error + pystr) \<Rightarrow> document \<Rightarrow> py_error + pystr" where
  \<comment> \<open>lines 64 and 65: \<open>doc[0]\<close> raises on a document without pages\<close>
  "try_ocr extract_with_ocr doc =
     (case doc of [] \<Rightarrow> Inl IndexError | page # _ \<Rightarrow> extract_with_ocr page)"

definition select_text :: "pystr \<Rightarrow> pystr option \<Rightarrow> py_error + pystr" where
  \<comment> \<open>line 71: \<open>raw_text if raw_text else ocr_text\<close>, with \<open>ocr_text\<close> bound or not\<close>
  "select_text raw_text ocr_text =
     (if raw_text \<noteq> [] then Inr raw_text
      else case ocr_text of None \<Rightarrow> Inl NameError | Some t \<Rightarrow> Inr t)"

definition process :: "(pystr \<Rightarrow> pystr) \<Rightarrow> pystr list \<Rightarrow> report_line list \<Rightarrow> pystr \<Rightarrow> run" where
  \<comment> \<open>lines 72 to 127, from the selected text on\<close>
  "process correct_text tilted_words report combined =
     (let corrected = correct_text combined;
          report = report @ [Agent3 (length (str_split corrected))];
          (added, removed) = diff_summary combined corrected;
          report = report @ [Agent4 added removed tilted_words];
          pairs = sentence_pairs combined corrected
      in \<lparr>agent_report = report, combined_text = combined, corrected_text = corrected,
          diff_added = added, diff_removed = removed,
          final_text_display = highlight_tilted corrected tilted_words,
          df_rows = pairs, html_rows = map (html_row tilted_words) pairs\<rparr>)"

definition main ::
  "(pystr \<Rightarrow> pystr) \<Rightarrow> (page \<Rightarrow> py_error + pystr) \<Rightarrow> document \<Rightarrow> py_error + run" where
  "main correct_text extract_with_ocr doc =
     (case extract_with_pymupdf doc of (raw_text, tilted_words) \<Rightarrow>
        let report = [Agent1 (length (str_split raw_text)) tilted_words];
            (ocr_text, report) =
               (case try_ocr extract_with_ocr doc of
                  Inr t \<Rightarrow> (Some t, report @ [Agent2 (length (str_split t))])
                | Inl e \<Rightarrow> (None, report @ [Agent2_Failed]))
        in case select_text raw_text ocr_text of
             Inl e \<Rightarrow> Inl e
           | Inr combined \<Rightarrow> Inr (process correct_text tilted_words report combined))"

text \<open>
  The three kinds of entry of an edit script, and the kind the loop of lines 119 to 125
  gives to a line of \<open>ndiff\<close>: added for the prefix \<open>"+ "\<close>, removed for the prefix \<open>"- "\<close>,
  and otherwise an unmarked token, in each case with the token \<open>d[2:]\<close>.
\<close>

datatype diff_entry = Unchanged pystr | Added pystr | Removed pystr

definition classify :: "pystr \<Rightarrow> diff_entry" where
  "classify d =
     (if startswith d (py ''+ '') then Added (drop 2 d)
      else if startswith d (py ''- '') then Removed (drop 2 d)
      else Unchanged (drop 2 d))"

section \<open>Auxiliary notions for stating the properties\<close>

definition block_spans :: "block \<Rightarrow> span list" where
  \<comment> \<open>the spans of a block, in the order the loops visit them\<close>
  "block_spans bl = concat (map (\<lambda>li. get_or li []) (get_or bl []))"

definition doc_spans :: "document \<Rightarrow> span list" where
  "doc_spans doc = concat (map (\<lambda>pg. concat (map block_spans pg)) doc)"

definition is_tilted :: "span \<Rightarrow> bool" where
  "is_tilted sp \<longleftrightarrow> \<bar>get_or (span_angle sp) 0\<bar> > 1"

definition span_words :: "span \<Rightarrow> pystr list" where
  "span_words sp = str_split (get_or (span_text sp) [])"

definition tilted_of :: "span list \<Rightarrow> pystr list" where
  "tilted_of sps = concat (map span_words (filter is_tilted sps))"

section \<open>Facts about the string operations\<close>

lemma split_from_trailing_space:
  "isspace c \<Longrightarrow> split_from w (s @ [c]) = split_from w s"
  by (induction s arbitrary: w) auto

lemma split_from_trailing_spaces:
  "list_all isspace t \<Longrightarrow> split_from w (s @ t) = split_from w s"
proof (induction t arbitrary: s)
  case Nil
  then show ?case by simp
next
  case (Cons c t)
  have "split_from w (s @ c # t) = split_from w (s @ [c])"
    using Cons.IH [of "s @ [c]"] Cons.prems by simp
  also have "\<dots> = split_from w s"
    using Cons.prems by (simp add: split_from_trailing_space)
  finally show ?case .
qed

lemma split_from_leading_spaces:
  "split_from [] (dropWhile isspace s) = split_from [] s"
  by (induction s) auto

lemma rev_dropWhile_rev:
  "\<exists>t. s = rev (dropWhile P (rev s)) @ t \<and> list_all P t"
proof -
  have "rev s = takeWhile P (rev s) @ dropWhile P (rev s)" by simp
  then have "s = rev (dropWhile P (rev s)) @ rev (takeWhile P (rev s))"
    by (metis rev_append rev_rev_ident)
  moreover have "list_all P (rev (takeWhile P (rev s)))"
    by (simp add: list_all_iff) (meson set_takeWhileD)
  ultimately show ?thesis by blast
qed

lemma str_split_strip: "str_split (str_strip s) = str_split s"
proof -
  obtain t where t: "dropWhile isspace s = rev (dropWhile isspace (rev (dropWhile isspace s))) @ t"
      "list_all isspace t"
    using rev_dropWhile_rev by blast
  have "str_split s = split_from [] (dropWhile isspace s)"
    by (simp add: str_split_def split_from_leading_spaces)
  also have "\<dots> = split_from [] (str_strip s @ t)"
    using t(1) by (simp add: str_strip_def)
  also have "\<dots> = split_from [] (str_strip s)"
    using t(2) by (rule split_from_trailing_spaces)
  finally show ?thesis by (simp add: str_split_def)
qed

lemma str_split_strip_empty: "str_strip s = [] \<Longrightarrow> str_split s = []"
  using str_split_strip [of s] by (simp add: str_split_def)

lemma split_from_tokens:
  "list_all (\<lambda>c. \<not> isspace c) w0 \<Longrightarrow>
   list_all (\<lambda>w. w \<noteq> [] \<and> list_all (\<lambda>c. \<not> isspace c) w) (split_from w0 s)"
  by (induction s arbitrary: w0) simp_all

lemma str_split_tokens: "\<forall>w\<in>set (str_split s). w \<noteq> [] \<and> (\<forall>c\<in>set w. \<not> isspace c)"
  using split_from_tokens [of "[]" s] by (simp add: str_split_def list_all_iff)

lemma split_on_from_nonempty: "split_on_from sep w s \<noteq> []"
  by (induction s arbitrary: w) simp_all

lemma str_join_Cons: "xs \<noteq> [] \<Longrightarrow> str_join sep (x # xs) = x @ sep @ str_join sep xs"
  by (cases xs) simp_all

lemma split_on_from_join: "str_join [sep] (split_on_from sep w s) = w @ s"
  by (induction s arbitrary: w) (simp_all add: str_join_Cons split_on_from_nonempty)

lemma split_on_from_free:
  "list_all (\<lambda>c. c \<noteq> sep) w \<Longrightarrow> list_all (list_all (\<lambda>c. c \<noteq> sep)) (split_on_from sep w s)"
  by (induction s arbitrary: w) simp_all

lemma str_split_on_free: "\<forall>p\<in>set (str_split_on sep s). sep \<notin> set p"
  using split_on_from_free [of sep "[]" s] by (auto simp: str_split_on_def list_all_iff)

section \<open>Span Extractor: the tilted words\<close>

lemma span_step_tilted:
  "snd (span_step (txt, tw) sp) =
     (if \<bar>get_or (span_angle sp) 0\<bar> > 1 then tw @ str_split (get_or (span_text sp) []) else tw)"
  by (simp add: span_step_def Let_def str_split_strip str_split_strip_empty)

lemma snd_foldl_append:
  assumes "\<And>st x. snd (f st x) = snd st @ g x"
  shows "snd (foldl f st xs) = snd st @ concat (map g xs)"
  using assms by (induction xs arbitrary: st) simp_all

lemma span_step_snd:
  "snd (span_step st sp) = snd st @ (if is_tilted sp then span_words sp else [])"
  using span_step_tilted [of "fst st" "snd st" sp]
  by (simp add: is_tilted_def span_words_def)

lemma concat_map_if_filter:
  "concat (map (\<lambda>x. if P x then g x else []) xs) = concat (map g (filter P xs))"
  by (induction xs) simp_all

lemma tilted_of_concat: "tilted_of (concat xss) = concat (map tilted_of xss)"
  by (induction xss) (simp_all add: tilted_of_def)

lemma line_step_snd: "snd (line_step st li) = snd st @ tilted_of (get_or li [])"
  unfolding line_step_def tilted_of_def
  by (simp add: snd_foldl_append [where g = "\<lambda>sp. if is_tilted sp then span_words sp else []"]
      span_step_snd concat_map_if_filter)

lemma block_step_snd: "snd (block_step st bl) = snd st @ tilted_of (block_spans bl)"
  unfolding block_step_def block_spans_def
  by (simp add: snd_foldl_append [where g = "\<lambda>li. tilted_of (get_or li [])"]
      line_step_snd tilted_of_concat comp_def)

lemma page_step_snd:
  "snd (page_step st pg) = snd st @ tilted_of (concat (map block_spans pg))"
  unfolding page_step_def
  by (simp add: snd_foldl_append [where g = "\<lambda>bl. tilted_of (block_spans bl)"]
      block_step_snd tilted_of_concat comp_def)

lemma extract_tilted_words: "snd (extract_with_pymupdf doc) = tilted_of (doc_spans doc)"
proof -
  have "snd (foldl page_step ([], []) doc) = tilted_of (doc_spans doc)"
    unfolding doc_spans_def
    by (simp add: snd_foldl_append [where g = "\<lambda>pg. tilted_of (concat (map block_spans pg))"]
        page_step_snd tilted_of_concat comp_def)
  then show ?thesis
    by (simp add: extract_with_pymupdf_def case_prod_beta)
qed

text \<open>
  C2. The claim: the tilted-word collection never holds a token twice. The code builds a
  list with \<open>extend\<close>; two tilted spans that both read "bad" leave "bad" in it twice.
\<close>

theorem tilted_words_not_distinct:
  "\<not> distinct (snd (extract_with_pymupdf
      [[Some [Some [\<lparr>span_text = Some (py ''bad''), span_angle = Some 5\<rparr>,
                    \<lparr>span_text = Some (py ''bad''), span_angle = Some 5\<rparr>]]]]))"
  by (simp add: extract_tilted_words doc_spans_def block_spans_def tilted_of_def is_tilted_def
      span_words_def get_or_def str_split_def py_def isspace_def)

text \<open>
  C2, as amended. The tilted-word collection is a list: the whitespace-separated words of
  the tilted spans (\<open>abs(angle) > 1\<close>), in document order, each word once per occurrence
  in a tilted span.
\<close>

theorem tilted_words_list:
  "snd (extract_with_pymupdf doc) =
     concat (map (\<lambda>sp. str_split (get_or (span_text sp) []))
                 (filter (\<lambda>sp. \<bar>get_or (span_angle sp) 0\<bar> > 1) (doc_spans doc)))"
proof -
  have "is_tilted = (\<lambda>sp. \<bar>get_or (span_angle sp) 0\<bar> > 1)"
    by (rule ext) (simp add: is_tilted_def)
  moreover have "span_words = (\<lambda>sp. str_split (get_or (span_text sp) []))"
    by (rule ext) (simp add: span_words_def)
  ultimately show ?thesis
    using extract_tilted_words [of doc] by (simp add: tilted_of_def)
qed

text \<open>
  C4. Tilt detection tests \<open>abs(angle) > 1\<close>, exclusive at 1: whatever the text and the
  state of the loop, a span at angle 1.0 adds no tilted word, and a span at angle 1.01 or
  -1.01 adds every whitespace-separated word of its text. The same holds of the collection
  the extractor returns: for the document of one span reading "tilt me", the collection is
  empty at angle 1.0 and is ["tilt", "me"] at 1.01 and at -1.01; for a document of one
  span of any text and angle, it is the words of the text if \<open>abs(angle) > 1\<close> and empty
  otherwise; and in a document of four spans at 1.0, 1.01, -1.01 and without an angle,
  only the words of the second and the third are collected, in that order.
\<close>

theorem tilt_threshold_exclusive:
  "snd (span_step (txt, tw) sp) =
     (if \<bar>get_or (span_angle sp) 0\<bar> > 1 then tw @ str_split (get_or (span_text sp) []) else tw)
   \<and> snd (span_step (txt, tw) \<lparr>span_text = t, span_angle = Some 1\<rparr>) = tw
   \<and> snd (span_step (txt, tw) \<lparr>span_text = t, span_angle = Some 1.01\<rparr>)
       = tw @ str_split (get_or t [])
   \<and> snd (span_step (txt, tw) \<lparr>span_text = t, span_angle = Some (- 1.01)\<rparr>)
       = tw @ str_split (get_or t [])
   \<and> extract_with_pymupdf
         [[Some [Some [\<lparr>span_text = Some (py ''tilt me''), span_angle = Some 1\<rparr>]]]]
       = (py ''tilt me'', [])
   \<and> extract_with_pymupdf
         [[Some [Some [\<lparr>span_text = Some (py ''tilt me''), span_angle = Some 1.01\<rparr>]]]]
       = (py ''tilt me'', [py ''tilt'', py ''me''])
   \<and> extract_with_pymupdf
         [[Some [Some [\<lparr>span_text = Some (py ''tilt me''), span_angle = Some (- 1.01)\<rparr>]]]]
       = (py ''tilt me'', [py ''tilt'', py ''me''])
   \<and> snd (extract_with_pymupdf [[Some [Some [\<lparr>span_text = Some s, span_angle = Some x\<rparr>]]]])
       = (if \<bar>x\<bar> > 1 then str_split s else [])
   \<and> extract_with_pymupdf
         [[Some [Some [\<lparr>span_text = Some (py ''flat one''), span_angle = Some 1\<rparr>,
                       \<lparr>span_text = Some (py ''up two''), span_angle = Some 1.01\<rparr>],
                 Some [\<lparr>span_text = Some (py ''down three''), span_angle = Some (- 1.01)\<rparr>,
                       \<lparr>span_text = Some (py ''plain''), span_angle = None\<rparr>]]]]
       = (py ''flat one up two down three plain'',
          [py ''up'', py ''two'', py ''down'', py ''three''])"
proof -
  have a: "snd (span_step (txt, tw) sp) =
     (if \<bar>get_or (span_angle sp) 0\<bar> > 1 then tw @ str_split (get_or (span_text sp) []) else tw)
   \<and> snd (span_step (txt, tw) \<lparr>span_text = t, span_angle = Some 1\<rparr>) = tw
   \<and> snd (span_step (txt, tw) \<lparr>span_text = t, span_angle = Some 1.01\<rparr>)
       = tw @ str_split (get_or t [])
   \<and> snd (span_step (txt, tw) \<lparr>span_text = t, span_angle = Some (- 1.01)\<rparr>)
       = tw @ str_split (get_or t [])"
    by (simp add: span_step_tilted get_or_def)
  have b: "extract_with_pymupdf
         [[Some [Some [\<lparr>span_text = Some (py ''tilt me''), span_angle = Some 1\<rparr>]]]]
       = (py ''tilt me'', [])"
    by (simp add: extract_with_pymupdf_def page_step_def block_step_def line_step_def
        span_step_def get_or_def str_strip_def str_split_def py_def isspace_def)
  have c: "extract_with_pymupdf
         [[Some [Some [\<lparr>span_text = Some (py ''tilt me''), span_angle = Some 1.01\<rparr>]]]]
       = (py ''tilt me'', [py ''tilt'', py ''me''])"
    by (simp add: extract_with_pymupdf_def page_step_def block_step_def line_step_def
        span_step_def get_or_def str_strip_def str_split_def py_def isspace_def)
  have d: "extract_with_pymupdf
         [[Some [Some [\<lparr>span_text = Some (py ''tilt me''), span_angle = Some (- 1.01)\<rparr>]]]]
       = (py ''tilt me'', [py ''tilt'', py ''me''])"
    by (simp add: extract_with_pymupdf_def page_step_def block_step_def line_step_def
        span_step_def get_or_def str_strip_def str_split_def py_def isspace_def)
  have e: "snd (extract_with_pymupdf [[Some [Some [\<lparr>span_text = Some s, span_angle = Some x\<rparr>]]]])
       = (if \<bar>x\<bar> > 1 then str_split s else [])"
    by (simp add: extract_tilted_words doc_spans_def block_spans_def tilted_of_def is_tilted_def
        span_words_def get_or_def)
  have f: "extract_with_pymupdf
         [[Some [Some [\<lparr>span_text = Some (py ''flat one''), span_angle = Some 1\<rparr>,
                       \<lparr>span_text = Some (py ''up two''), span_angle = Some 1.01\<rparr>],
                 Some [\<lparr>span_text = Some (py ''down three''), span_angle = Some (- 1.01)\<rparr>,
                       \<lparr>span_text = Some (py ''plain''), span_angle = None\<rparr>]]]]
       = (py ''flat one up two down three plain'',
          [py ''up'', py ''two'', py ''down'', py ''three''])"
    by (simp add: extract_with_pymupdf_def page_step_def block_step_def line_step_def
        span_step_def get_or_def str_strip_def str_split_def py_def isspace_def)
  from a b c d e f show ?thesis by blast
qed

section \<open>Tilt Highlighter: what is marked\<close>

lemma highlight_loop_map:
  "highlight_loop tw out ws = out @ map (\<lambda>w. if w \<in> set tw then mark w else w) ws"
  by (induction ws arbitrary: out) simp_all

lemma mark_neq: "mark w \<noteq> w"
proof
  assume "mark w = w"
  then have "length (mark w) = length w" by simp
  then show False by (simp add: mark_def py_def)
qed

text \<open>
  C8. For every text and tilted-word collection, the highlighter splits the text at
  whitespace, replaces each token that is a member of the collection by its marked form
  (every occurrence, wherever it stands), leaves every other token as it is, and joins the
  result with single spaces. The marked form is the token between the opening tag
  \<open><span style='color:green;font-weight:bold'>\<close> and the closing tag \<open></span>\<close>, so it
  differs from the token. On "bad bad" with the collection ["bad"], both occurrences are
  marked; on "bad ok  bad" the token "ok" passes through and the double space becomes one;
  with the collection ["ba"] nothing in "bad bad" is marked, a member being a whole token.
\<close>

theorem highlight_tilted_literal_match:
  "highlight_tilted text tilted_words =
     str_join (py '' '') (map (\<lambda>w. if w \<in> set tilted_words then mark w else w) (str_split text))
   \<and> mark w \<noteq> w
   \<and> highlight_tilted (py ''bad bad'') [py ''bad'']
       = mark (py ''bad'') @ py '' '' @ mark (py ''bad'')
   \<and> mark w = py ''<span style='color:green;font-weight:bold'>'' @ w @ py ''</span>''
   \<and> highlight_tilted (py ''bad bad'') [py ''bad'']
       = py ''<span style='color:green;font-weight:bold'>bad</span> <span style='color:green;font-weight:bold'>bad</span>''
   \<and> highlight_tilted (py ''bad ok  bad'') [py ''bad'']
       = py ''<span style='color:green;font-weight:bold'>bad</span> ok <span style='color:green;font-weight:bold'>bad</span>''
   \<and> highlight_tilted (py ''bad bad'') [py ''ba''] = py ''bad bad''
   \<and> highlight_tilted (py ''bad bad'') [] = py ''bad bad''"
proof -
  have s1: "str_split (py ''bad bad'') = [py ''bad'', py ''bad'']"
    by (simp add: str_split_def py_def isspace_def)
  have s2: "str_split (py ''bad ok  bad'') = [py ''bad'', py ''ok'', py ''bad'']"
    by (simp add: str_split_def py_def isspace_def)
  have a: "highlight_tilted text tilted_words =
     str_join (py '' '') (map (\<lambda>w. if w \<in> set tilted_words then mark w else w) (str_split text))
   \<and> mark w \<noteq> w
   \<and> highlight_tilted (py ''bad bad'') [py ''bad'']
       = mark (py ''bad'') @ py '' '' @ mark (py ''bad'')"
    using s1 by (simp add: highlight_tilted_def highlight_loop_map mark_neq)
  have b: "mark w = py ''<span style='color:green;font-weight:bold'>'' @ w @ py ''</span>''"
    by (simp add: mark_def)
  have c: "highlight_tilted (py ''bad bad'') [py ''bad'']
       = py ''<span style='color:green;font-weight:bold'>bad</span> <span style='color:green;font-weight:bold'>bad</span>''"
    unfolding highlight_tilted_def s1 by (simp add: mark_def py_def)
  have d: "highlight_tilted (py ''bad ok  bad'') [py ''bad'']
       = py ''<span style='color:green;font-weight:bold'>bad</span> ok <span style='color:green;font-weight:bold'>bad</span>''"
    unfolding highlight_tilted_def s2 by (simp add: mark_def py_def)
  have e: "highlight_tilted (py ''bad bad'') [py ''ba''] = py ''bad bad''"
    unfolding highlight_tilted_def s1 by (simp add: py_def)
  have f: "highlight_tilted (py ''bad bad'') [] = py ''bad bad''"
    unfolding highlight_tilted_def s1 by (simp add: py_def)
  from a b c d e f show ?thesis by blast
qed

section \<open>Sentence Aligner: padding and pairing\<close>

lemma map_filter_concat:
  "map f (filter P xs) = concat (map (\<lambda>x. if P x then [f x] else []) xs)"
  by (induction xs) simp_all

lemma length_pad: "length (pad n xs) = max n (length xs)"
  by (simp add: pad_def)

text \<open>
  C7. Both texts are split at the period (code point 46): joining the pieces with periods
  gives the text back and no piece holds a period. The sentences are the trimmed pieces
  that are not empty after trimming. The shorter sentence list is padded on the right with
  empty strings to the length of the longer, and the two are paired by position. On
  "One. Two." against "One. Two. Three." the pairs are (One, One), (Two, Two), ('', Three).
\<close>

theorem sentence_aligner_pads_and_pairs:
  "str_join [46] (str_split_on 46 text) = text
   \<and> (\<forall>p\<in>set (str_split_on 46 text). 46 \<notin> set p)
   \<and> sentences text = [str_strip s. s \<leftarrow> str_split_on 46 text, str_strip s \<noteq> []]
   \<and> length (sentence_pairs a b) = max (length (sentences a)) (length (sentences b))
   \<and> map fst (sentence_pairs a b)
       = sentences a @ replicate (max (length (sentences a)) (length (sentences b)) - length (sentences a)) []
   \<and> map snd (sentence_pairs a b)
       = sentences b @ replicate (max (length (sentences a)) (length (sentences b)) - length (sentences b)) []
   \<and> sentence_pairs (py ''One. Two.'') (py ''One. Two. Three.'')
       = [(py ''One'', py ''One''), (py ''Two'', py ''Two''), ([], py ''Three'')]"
proof -
  have 1: "str_join [46] (str_split_on 46 text) = text"
    by (simp add: str_split_on_def split_on_from_join)
  have 2: "\<forall>p\<in>set (str_split_on 46 text). 46 \<notin> set p"
    by (rule str_split_on_free)
  have 3: "sentences text = [str_strip s. s \<leftarrow> str_split_on 46 text, str_strip s \<noteq> []]"
    by (simp add: sentences_def map_filter_concat)
  have len: "length (pad (max (length (sentences a)) (length (sentences b))) (sentences a))
        = length (pad (max (length (sentences a)) (length (sentences b))) (sentences b))"
    by (simp add: length_pad)
  have 4: "length (sentence_pairs a b) = max (length (sentences a)) (length (sentences b))"
    by (simp add: sentence_pairs_def Let_def length_pad)
  have 5: "map fst (sentence_pairs a b)
       = sentences a @ replicate (max (length (sentences a)) (length (sentences b)) - length (sentences a)) []"
    using len by (simp add: sentence_pairs_def Let_def) (simp add: pad_def)
  have 6: "map snd (sentence_pairs a b)
       = sentences b @ replicate (max (length (sentences a)) (length (sentences b)) - length (sentences b)) []"
    using len by (simp add: sentence_pairs_def Let_def) (simp add: pad_def)
  have 7: "sentence_pairs (py ''One. Two.'') (py ''One. Two. Three.'')
       = [(py ''One'', py ''One''), (py ''Two'', py ''Two''), ([], py ''Three'')]"
    by (simp add: sentence_pairs_def sentences_def str_split_on_def py_def pad_def
        str_strip_def isspace_def)
  from 1 2 3 4 5 6 7 show ?thesis by blast
qed

theorem sentence_aligner_pads_and_pairs_witness:
  "py ''One'' \<in> set (str_split_on 46 (py ''One. Two.'')) \<and> 46 \<notin> set (py ''One'')
   \<and> str_join [46] (str_split_on 46 (py ''One. Two.'')) = py ''One. Two.''
   \<and> length (sentence_pairs (py ''One. Two.'') (py ''One. Two. Three.'')) = 3"
proof -
  have m: "py ''One'' \<in> set (str_split_on 46 (py ''One. Two.''))"
    by (simp add: str_split_on_def py_def)
  have len: "length (sentences (py ''One. Two.'')) = 2"
      "length (sentences (py ''One. Two. Three.'')) = 3"
    by (simp_all add: sentences_def str_split_on_def py_def str_strip_def isspace_def)
  show ?thesis
    using sentence_aligner_pads_and_pairs
      [of "py ''One. Two.''" "py ''One. Two.''" "py ''One. Two. Three.''"] m len
    by simp
qed

section \<open>Diff Engine: a list against itself\<close>

text \<open>
  The matcher on two copies of a list \<open>X\<close> finds the whole list as one block. The proof
  follows the rows of \<open>find_longest_match\<close>: \<open>rb X j\<close> is the length of the run of
  words, none of them left out of the index, that ends before position \<open>j\<close>; row \<open>i\<close> holds
  at most these lengths and holds \<open>rb X (i + 1)\<close> on the diagonal. The extension loops then
  recover what the index leaves out.
\<close>

definition inner_step :: "nat \<Rightarrow> (nat \<rightharpoonup> nat) \<Rightarrow> (nat \<rightharpoonup> nat) \<times> best \<Rightarrow> nat \<Rightarrow> (nat \<rightharpoonup> nat) \<times> best" where
  "inner_step i j2len st j =
     (case st of (newj2len, besti, bestj, bestsize) \<Rightarrow>
        let k = (if j = 0 then 0 else get_or (j2len (j - 1)) 0) + 1
        in if k > bestsize then (newj2len(j \<mapsto> k), i + 1 - k, j + 1 - k, k)
           else (newj2len(j \<mapsto> k), besti, bestj, bestsize))"

lemma inner_loop_foldl:
  "list_all (\<lambda>j. blo \<le> j \<and> j < bhi) js \<Longrightarrow>
   inner_loop blo bhi i j2len js st = foldl (inner_step i j2len) st js"
proof (induction js arbitrary: st)
  case Nil
  then show ?case by simp
next
  case (Cons j js)
  obtain m bi bj bs where st: "st = (m, bi, bj, bs)" by (cases st) auto
  have j: "\<not> j < blo" "\<not> bhi \<le> j" using Cons.prems by simp_all
  have "inner_loop blo bhi i j2len (j # js) st
      = inner_loop blo bhi i j2len js (inner_step i j2len st j)"
    using j unfolding st by (simp add: inner_step_def Let_def)
  also have "\<dots> = foldl (inner_step i j2len) (inner_step i j2len st j) js"
    using Cons.prems by (intro Cons.IH) simp
  finally show ?case by simp
qed

primrec rb :: "'a list \<Rightarrow> nat \<Rightarrow> nat" where
  "rb X 0 = 0"
| "rb X (Suc j) = (if popular X (X ! j) then 0 else rb X j + 1)"

lemmas rb_Suc = rb.simps(2)

declare rb.simps(2) [simp del]

definition val :: "(nat \<rightharpoonup> nat) \<Rightarrow> nat \<Rightarrow> nat" where
  "val m j = (if j = 0 then 0 else get_or (m (j - 1)) 0)"

definition previnv :: "'a list \<Rightarrow> nat \<Rightarrow> (nat \<rightharpoonup> nat) \<Rightarrow> bool" where
  "previnv X r m \<longleftrightarrow> (\<forall>j. val m j \<le> rb X j \<and> val m j \<le> rb X r) \<and> val m r = rb X r"

definition newinv :: "'a list \<Rightarrow> nat \<Rightarrow> (nat \<rightharpoonup> nat) \<Rightarrow> bool" where
  "newinv X r m \<longleftrightarrow> (\<forall>j k. m j = Some k \<longrightarrow> k \<le> rb X (Suc j) \<and> k \<le> rb X (Suc r))"

definition bestinv :: "'a list \<Rightarrow> nat \<Rightarrow> best \<Rightarrow> bool" where
  "bestinv X r bst \<longleftrightarrow> (case bst of (bi, bj, bs) \<Rightarrow> bi = bj \<and> (\<forall>j\<le>r. rb X j \<le> bs))"

lemma step_k:
  assumes "previnv X r m" "\<not> popular X (X ! r)" "X ! j = X ! r"
  shows "val m j + 1 \<le> rb X (Suc j)" "val m j + 1 \<le> rb X (Suc r)"
  using assms by (simp_all add: previnv_def rb_Suc)

lemma inner_step_eq:
  "inner_step i m (newm, bi, bj, bs) j =
     (if val m j + 1 > bs then (newm(j \<mapsto> val m j + 1), i + 1 - (val m j + 1), j + 1 - (val m j + 1), val m j + 1)
      else (newm(j \<mapsto> val m j + 1), bi, bj, bs))"
  by (simp add: inner_step_def val_def Let_def)

lemma phase_before:
  assumes "previnv X r m" "\<not> popular X (X ! r)" "bestinv X r bst"
    and "list_all (\<lambda>j. j < r \<and> X ! j = X ! r) js" "newinv X r newm"
  shows "\<exists>newm'. foldl (inner_step r m) (newm, bst) js = (newm', bst) \<and> newinv X r newm'"
  using assms(4,5)
proof (induction js arbitrary: newm)
  case Nil
  then show ?case by simp
next
  case (Cons j js)
  obtain bi bj bs where b: "bst = (bi, bj, bs)" by (cases bst) auto
  have j: "j < r" "X ! j = X ! r" using Cons.prems(1) by simp_all
  have k: "val m j + 1 \<le> rb X (Suc j)" "val m j + 1 \<le> rb X (Suc r)"
    using step_k [OF assms(1,2) j(2)] by simp_all
  have "\<forall>j\<le>r. rb X j \<le> bs" using assms(3) unfolding b by (simp add: bestinv_def)
  from this [rule_format, of "Suc j"] have "rb X (Suc j) \<le> bs" using j(1) by simp
  then have nb: "\<not> val m j + 1 > bs" using k(1) by simp
  have s: "inner_step r m (newm, bst) j = (newm(j \<mapsto> val m j + 1), bst)"
    unfolding b inner_step_eq using nb by simp
  have "newinv X r (newm(j \<mapsto> val m j + 1))"
    using Cons.prems(2) k by (simp add: newinv_def)
  then obtain newm' where
    "foldl (inner_step r m) (newm(j \<mapsto> val m j + 1), bst) js = (newm', bst) \<and> newinv X r newm'"
    using Cons.IH Cons.prems(1) by force
  then show ?case using s by simp
qed

lemma phase_after:
  assumes "previnv X r m" "\<not> popular X (X ! r)" "bestinv X (Suc r) bst"
    and "list_all (\<lambda>j. r < j \<and> X ! j = X ! r) js" "newinv X r newm" "newm r = Some d"
  shows "\<exists>newm'. foldl (inner_step r m) (newm, bst) js = (newm', bst) \<and> newinv X r newm'
            \<and> newm' r = Some d"
  using assms(4,5,6)
proof (induction js arbitrary: newm)
  case Nil
  then show ?case by simp
next
  case (Cons j js)
  obtain bi bj bs where b: "bst = (bi, bj, bs)" by (cases bst) auto
  have j: "r < j" "X ! j = X ! r" using Cons.prems(1) by simp_all
  have k: "val m j + 1 \<le> rb X (Suc j)" "val m j + 1 \<le> rb X (Suc r)"
    using step_k [OF assms(1,2) j(2)] by simp_all
  have "\<forall>j\<le>Suc r. rb X j \<le> bs" using assms(3) unfolding b by (simp add: bestinv_def)
  from this [rule_format, of "Suc r"] have "rb X (Suc r) \<le> bs" by simp
  then have nb: "\<not> val m j + 1 > bs" using k(2) by simp
  have s: "inner_step r m (newm, bst) j = (newm(j \<mapsto> val m j + 1), bst)"
    unfolding b inner_step_eq using nb by simp
  have "newinv X r (newm(j \<mapsto> val m j + 1))"
    using Cons.prems(2) k by (simp add: newinv_def)
  moreover have "(newm(j \<mapsto> val m j + 1)) r = Some d"
    using Cons.prems(3) j(1) by simp
  ultimately obtain newm' where
    "foldl (inner_step r m) (newm(j \<mapsto> val m j + 1), bst) js = (newm', bst) \<and> newinv X r newm'
       \<and> newm' r = Some d"
    using Cons.IH Cons.prems(1) by force
  then show ?case using s by simp
qed

lemma phase_diag:
  assumes "previnv X r m" "\<not> popular X (X ! r)" "bestinv X r bst" "newinv X r newm"
  shows "\<exists>newm' bst'. inner_step r m (newm, bst) r = (newm', bst') \<and> newinv X r newm'
            \<and> newm' r = Some (rb X (Suc r)) \<and> bestinv X (Suc r) bst'"
proof -
  obtain bi bj bs where b: "bst = (bi, bj, bs)" by (cases bst) auto
  have v: "val m r + 1 = rb X (Suc r)" using assms(1,2) by (simp add: previnv_def rb_Suc)
  have inv: "newinv X r (newm(r \<mapsto> rb X (Suc r)))"
    using assms(4) by (simp add: newinv_def)
  have old: "bi = bj" "\<forall>j\<le>r. rb X j \<le> bs" using assms(3) unfolding b by (simp_all add: bestinv_def)
  show ?thesis
  proof (cases "rb X (Suc r) > bs")
    case True
    have "bestinv X (Suc r) (r + 1 - rb X (Suc r), r + 1 - rb X (Suc r), rb X (Suc r))"
      unfolding bestinv_def using old(2) True by (auto simp: le_Suc_eq)
    then show ?thesis unfolding b inner_step_eq v using True inv by simp
  next
    case False
    have "bestinv X (Suc r) (bi, bj, bs)"
      unfolding bestinv_def using old False by (auto simp: le_Suc_eq)
    then show ?thesis unfolding b inner_step_eq v using False inv by simp
  qed
qed

lemma b2j_nojunk:
  "b2j (\<lambda>_. False) X x = (if popular X x then [] else filter (\<lambda>j. X ! j = x) [0..<length X])"
  by (simp add: b2j_def indices_of_def)

lemma previnv_empty_popular:
  assumes "popular X (X ! r)"
  shows "previnv X (Suc r) Map.empty"
  using assms by (simp add: previnv_def val_def get_or_def rb_Suc)

lemma previnv_next:
  assumes "newinv X r m'" "m' r = Some (rb X (Suc r))"
  shows "previnv X (Suc r) m'"
proof -
  have "val m' j \<le> rb X j \<and> val m' j \<le> rb X (Suc r)" for j
  proof (cases j)
    case 0
    then show ?thesis by (simp add: val_def)
  next
    case (Suc j')
    show ?thesis
    proof (cases "m' j'")
      case None
      then show ?thesis using Suc by (simp add: val_def get_or_def)
    next
      case (Some k)
      then have "k \<le> rb X (Suc j') \<and> k \<le> rb X (Suc r)"
        using assms(1) by (simp add: newinv_def)
      then show ?thesis using Suc Some by (simp add: val_def get_or_def)
    qed
  qed
  moreover have "val m' (Suc r) = rb X (Suc r)"
    using assms(2) by (simp add: val_def get_or_def)
  ultimately show ?thesis by (simp add: previnv_def)
qed

lemma outer_step_self:
  assumes r: "r < length X" and p: "previnv X r m" and b: "bestinv X r bst"
  shows "\<exists>m' bst'. outer_step (\<lambda>_. False) X X 0 (length X) (m, bst) r = (m', bst')
           \<and> previnv X (Suc r) m' \<and> bestinv X (Suc r) bst'"
proof (cases "popular X (X ! r)")
  case True
  have "outer_step (\<lambda>_. False) X X 0 (length X) (m, bst) r = (Map.empty, bst)"
    using True by (simp add: outer_step_def b2j_nojunk)
  moreover have "bestinv X (Suc r) bst"
    using b True by (cases bst) (auto simp: bestinv_def le_Suc_eq rb_Suc)
  ultimately show ?thesis using previnv_empty_popular [OF True] by simp
next
  case False
  define Q where "Q = (\<lambda>j. X ! j = X ! r)"
  define js1 where "js1 = filter Q [0..<r]"
  define js3 where "js3 = filter Q [Suc r..<length X]"
  have "[0..<r + (length X - r)] = [0..<r] @ [r..<r + (length X - r)]"
    by (rule upt_add_eq_append) simp
  then have upt: "[0..<length X] = [0..<r] @ r # [Suc r..<length X]"
    using r by (simp add: upt_conv_Cons)
  have js: "b2j (\<lambda>_. False) X (X ! r) = js1 @ r # js3"
    using False by (simp add: b2j_nojunk upt js1_def js3_def Q_def)
  have all: "list_all (\<lambda>j. 0 \<le> j \<and> j < length X) (js1 @ r # js3)"
    using r by (auto simp: list_all_iff js1_def js3_def)
  have l1: "list_all (\<lambda>j. j < r \<and> X ! j = X ! r) js1"
    by (auto simp: list_all_iff js1_def Q_def)
  have l3: "list_all (\<lambda>j. r < j \<and> X ! j = X ! r) js3"
    by (auto simp: list_all_iff js3_def Q_def)
  have n0: "newinv X r Map.empty" by (simp add: newinv_def)
  obtain m1 where 1: "foldl (inner_step r m) (Map.empty, bst) js1 = (m1, bst)" "newinv X r m1"
    using phase_before [OF p False b l1 n0] by blast
  obtain m2 bst2 where 2: "inner_step r m (m1, bst) r = (m2, bst2)" "newinv X r m2"
      "m2 r = Some (rb X (Suc r))" "bestinv X (Suc r) bst2"
    using phase_diag [OF p False b 1(2)] by blast
  obtain m3 where 3: "foldl (inner_step r m) (m2, bst2) js3 = (m3, bst2)" "newinv X r m3"
      "m3 r = Some (rb X (Suc r))"
    using phase_after [OF p False 2(4) l3 2(2,3)] by blast
  have "outer_step (\<lambda>_. False) X X 0 (length X) (m, bst) r
      = foldl (inner_step r m) (Map.empty, bst) (js1 @ r # js3)"
    unfolding outer_step_def js using inner_loop_foldl [OF all] by simp
  also have "\<dots> = (m3, bst2)" using 1(1) 2(1) 3(1) by simp
  finally show ?thesis using previnv_next [OF 3(2,3)] 2(4) by simp
qed

lemma outer_loop_self:
  assumes "previnv X i m" "bestinv X i bst" "i \<le> length X"
  shows "\<exists>m' bst'. foldl (outer_step (\<lambda>_. False) X X 0 (length X)) (m, bst) [i..<length X] = (m', bst')
           \<and> bestinv X (length X) bst'"
  using assms
proof (induction "length X - i" arbitrary: i m bst)
  case 0
  then show ?case by simp
next
  case (Suc d)
  then have lt: "i < length X" by simp
  obtain m1 bst1 where 1: "outer_step (\<lambda>_. False) X X 0 (length X) (m, bst) i = (m1, bst1)"
      "previnv X (Suc i) m1" "bestinv X (Suc i) bst1"
    using outer_step_self [OF lt Suc.prems(1,2)] by blast
  have d: "d = length X - Suc i" using Suc.hyps(2) by simp
  have le: "Suc i \<le> length X" using lt by simp
  obtain m' bst' where 2:
    "foldl (outer_step (\<lambda>_. False) X X 0 (length X)) (m1, bst1) [Suc i..<length X] = (m', bst')"
    "bestinv X (length X) bst'"
    using Suc.hyps(1) [OF d 1(2,3) le] by blast
  have "[i..<length X] = i # [Suc i..<length X]" using lt by (simp add: upt_conv_Cons)
  then show ?case using 1(1) 2 by simp
qed

lemma isbjunk_nojunk [simp]: "isbjunk (\<lambda>_. False) X x = False"
  by (simp add: isbjunk_def)

lemma extend_left_self:
  "extend_left False (\<lambda>_. False) X X 0 0 (bi, bi, bs) = (0, 0, bs + bi)"
proof (induction bi arbitrary: bs)
  case 0
  then show ?case by (subst extend_left.simps) simp
next
  case (Suc bi)
  have "extend_left False (\<lambda>_. False) X X 0 0 (Suc bi, Suc bi, bs)
      = extend_left False (\<lambda>_. False) X X 0 0 (bi, bi, bs + 1)"
    by (subst extend_left.simps) simp
  then show ?case using Suc [of "bs + 1"] by simp
qed

lemma extend_right_self:
  "s \<le> n \<Longrightarrow> extend_right False (\<lambda>_. False) X X n n (0, 0, s) = (0, 0, n)"
proof (induction "n - s" arbitrary: s)
  case 0
  then show ?case by (subst extend_right.simps) simp
next
  case (Suc d)
  then have lt: "s < n" by simp
  have "extend_right False (\<lambda>_. False) X X n n (0, 0, s)
      = extend_right False (\<lambda>_. False) X X n n (0, 0, s + 1)"
    using lt by (subst extend_right.simps) simp
  moreover have "extend_right False (\<lambda>_. False) X X n n (0, 0, s + 1) = (0, 0, n)"
    using Suc.hyps(2) lt by (intro Suc.hyps(1)) simp_all
  ultimately show ?case by simp
qed

lemma find_longest_match_self:
  "find_longest_match (\<lambda>_. False) X X 0 (length X) 0 (length X) = (0, 0, length X)"
proof -
  define n where "n = length X"
  define dp where "dp = snd (foldl (outer_step (\<lambda>_. False) X X 0 n) (Map.empty, (0, 0, 0)) [0..<n])"
  have p0: "previnv X 0 Map.empty" by (simp add: previnv_def val_def get_or_def)
  have b0: "bestinv X 0 (0, 0, 0)" by (simp add: bestinv_def)
  obtain m' bst' where f: "foldl (outer_step (\<lambda>_. False) X X 0 n) (Map.empty, (0, 0, 0)) [0..<n] = (m', bst')"
      "bestinv X n bst'"
    using outer_loop_self [OF p0 b0] unfolding n_def by blast
  obtain bi bs where bst': "bst' = (bi, bi, bs)"
    using f(2) by (cases bst') (auto simp: bestinv_def)
  have dp: "dp = (bi, bi, bs)" using f(1) bst' by (simp add: dp_def)
  have "best_ok 0 n 0 n dp"
    unfolding dp_def by (rule outer_loop_ok) (simp_all add: row_ok_def best_ok_def)
  then have le: "bs + bi \<le> n" unfolding dp by (auto simp: best_ok_def)
  have "find_longest_match (\<lambda>_. False) X X 0 n 0 n
      = extend_right True (\<lambda>_. False) X X n n
          (extend_left True (\<lambda>_. False) X X 0 0
            (extend_right False (\<lambda>_. False) X X n n
              (extend_left False (\<lambda>_. False) X X 0 0 dp)))"
    by (simp add: find_longest_match_def dp_def Let_def)
  also have "\<dots> = extend_right True (\<lambda>_. False) X X n n
          (extend_left True (\<lambda>_. False) X X 0 0 (0, 0, n))"
    unfolding dp extend_left_self using extend_right_self [OF le, where X = X] by simp
  also have "\<dots> = extend_right True (\<lambda>_. False) X X n n (0, 0, n)"
    by (subst extend_left.simps) simp
  also have "\<dots> = (0, 0, n)"
    by (subst extend_right.simps) simp
  finally show ?thesis by (simp add: n_def)
qed

lemma get_matching_blocks_self:
  "get_matching_blocks (\<lambda>_. False) X X =
     (if X = [] then [(0, 0, 0)] else [(0, 0, length X), (length X, length X, 0)])"
  by (simp add: get_matching_blocks_def Let_def find_longest_match_self collapse_step_def)

lemma get_opcodes_self:
  "get_opcodes (\<lambda>_. False) X X = (if X = [] then [] else [(Equal, 0, length X, 0, length X)])"
  by (simp add: get_opcodes_def get_matching_blocks_self opcode_step_def Let_def)

lemma dump_all: "dump tg X 0 (length X) = map (\<lambda>w. tg @ py '' '' @ w) X"
  unfolding dump_def by (rule nth_equalityI) simp_all

lemma ndiff_self: "ndiff X X = map (\<lambda>w. py ''  '' @ w) X"
proof (cases "X = []")
  case True
  then show ?thesis by (simp add: ndiff_def compare_def get_opcodes_self)
next
  case False
  then have "get_opcodes (\<lambda>_. False) X X = [(Equal, 0, length X, 0, length X)]"
    by (simp add: get_opcodes_self)
  then have "ndiff X X = dump (py '' '') X 0 (length X)"
    by (simp add: ndiff_def compare_def)
  also have "\<dots> = map (\<lambda>w. py '' '' @ py '' '' @ w) X" by (rule dump_all)
  also have "\<dots> = map (\<lambda>w. py ''  '' @ w) X" by (simp add: py_def)
  finally show ?thesis .
qed

section \<open>Diff Engine: reading the edit script\<close>

lemma classify_unchanged: "classify (py ''  '' @ w) = Unchanged w"
  by (simp add: classify_def startswith_def py_def)

lemma summary_step_unchanged: "summary_step st (py ''  '' @ w) = st"
  by (cases st) (simp add: summary_step_def startswith_def py_def)

lemma render_step_unchanged: "render_step acc (py ''  '' @ w) = acc @ [w]"
  by (simp add: render_step_def startswith_def py_def)

lemma summary_unchanged: "foldl summary_step st (map (\<lambda>w. py ''  '' @ w) X) = st"
  by (induction X arbitrary: st) (simp_all add: summary_step_unchanged)

lemma render_unchanged: "foldl render_step acc (map (\<lambda>w. py ''  '' @ w) X) = acc @ X"
  by (induction X arbitrary: acc) (simp_all add: render_step_unchanged)

lemma diff_summary_self: "diff_summary t t = ([], [])"
  by (simp add: diff_summary_def ndiff_self summary_unchanged)

lemma sentence_diff_html_self: "sentence_diff_html s s = str_split s"
  by (simp add: sentence_diff_html_def ndiff_self render_unchanged)

section \<open>Diff Engine: two edit scripts\<close>

lemma abc_opcodes:
  "get_opcodes (\<lambda>_. False) [py ''a'', py ''b'', py ''c''] [py ''a'', py ''c'', py ''d'']
     = [(Equal, 0, 1, 0, 1), (Delete, 1, 2, 1, 1), (Equal, 2, 3, 1, 2), (Insert, 3, 3, 2, 3)]"
  by code_simp

lemma abc_ndiff:
  "ndiff [py ''a'', py ''b'', py ''c''] [py ''a'', py ''c'', py ''d'']
     = [py ''  a'', py ''- b'', py ''  c'', py ''+ d'']"
  unfolding ndiff_def compare_def abc_opcodes
  by (simp add: dump_def py_def upt_rec)

lemma ab_ndiff: "ndiff [py ''a''] [py ''b''] = [py ''- a'', py ''+ b'']"
  by code_simp

lemma helo_ratios:
  "real_quick_ratio (py ''Helo'') (py ''Hello'') = 8 / 9"
  "quick_ratio (py ''Helo'') (py ''Hello'') = 8 / 9"
  "ratio IS_CHARACTER_JUNK (py ''Helo'') (py ''Hello'') = 8 / 9"
  by code_simp+

lemma helo_search:
  "search (py ''Helo'' # as) 0 1 (py ''Hello'' # bs) 0 1 = (8 / 9, Some (0, 0), None)"
proof -
  have "py ''Helo'' \<noteq> py ''Hello''" by (simp add: py_def)
  then show ?thesis by (simp add: search_def search_step_def helo_ratios)
qed

lemma helo_char_opcodes:
  "get_opcodes IS_CHARACTER_JUNK (py ''Helo'') (py ''Hello'')
     = [(Equal, 0, 3, 0, 3), (Insert, 3, 3, 3, 4), (Equal, 3, 4, 4, 5)]"
  by code_simp

lemma helo_tags:
  "foldl tags_step ([], []) (get_opcodes IS_CHARACTER_JUNK (py ''Helo'') (py ''Hello''))
     = (py ''    '', py ''   + '')"
  unfolding helo_char_opcodes by code_simp

lemma helo_qformat:
  "qformat (py ''Helo'') (py ''Hello'') (py ''    '') (py ''   + '')
     = [py ''- Helo'', py ''+ Hello'', py ''?    +'' @ [10]]"
  by (simp add: qformat_def keep_original_ws_def str_rstrip_def isspace_def py_def)

lemma helo_replace:
  "fancy_replace (py ''Helo'' # as) 0 1 (py ''Hello'' # bs) 0 1
     = [py ''- Helo'', py ''+ Hello'', py ''?    +'' @ [10]]"
  apply (subst fancy_replace.simps)
  apply (simp only: helo_search)
  apply (simp add: synch_def fancy_helper.simps helo_tags helo_qformat)
  done

lemma helo_opcodes:
  "get_opcodes (\<lambda>_. False) [py ''Helo'', py ''world''] [py ''Hello'', py ''world'']
     = [(Replace, 0, 1, 0, 1), (Equal, 1, 2, 1, 2)]"
  by code_simp

lemma helo_ndiff:
  "ndiff [py ''Helo'', py ''world''] [py ''Hello'', py ''world'']
     = [py ''- Helo'', py ''+ Hello'', py ''?    +'' @ [10], py ''  world'']"
  unfolding ndiff_def compare_def helo_opcodes
  apply (simp only: list.map prod.case tag.case concat.simps helo_replace)
  apply (simp add: dump_def py_def numeral_2_eq_2)
  done

lemma helo_split:
  "str_split (py ''Helo world'') = [py ''Helo'', py ''world'']"
  "str_split (py ''Hello world'') = [py ''Hello'', py ''world'']"
  by (simp_all add: str_split_def py_def isspace_def)

lemma helo_sentences:
  "sentences (py ''Helo world.'') = [py ''Helo world'']"
  "sentences (py ''Hello world.'') = [py ''Hello world'']"
  by (simp_all add: sentences_def str_split_on_def str_strip_def py_def isspace_def)

lemma helo_html:
  "sentence_diff_html (py ''Helo world'') (py ''Hello world'')
     = [py ''<span style='color:red'>Helo</span>'', py ''<span style='color:green'>Hello</span>'',
        py ''   +'' @ [10], py ''world'']"
  unfolding sentence_diff_html_def helo_split helo_ndiff
  by (simp add: render_step_def startswith_def py_def)

section \<open>Diff Engine and application: the properties\<close>

text \<open>
  C5. On the word lists [a, b, c] and [a, c, d], \<open>ndiff\<close> yields the four lines "  a",
  "- b", "  c", "+ d" in this order: Unchanged a, Removed b, Unchanged c, Added d. On the
  texts "a b c" and "a c d", the summary of lines 76 to 83 has d as the only added word and
  b as the only removed word, and the rendering of lines 117 to 125 shows a, then b in red,
  then c, then d in green.
\<close>

theorem diff_example_abc:
  "ndiff [py ''a'', py ''b'', py ''c''] [py ''a'', py ''c'', py ''d'']
     = [py ''  a'', py ''- b'', py ''  c'', py ''+ d'']
   \<and> map classify (ndiff [py ''a'', py ''b'', py ''c''] [py ''a'', py ''c'', py ''d''])
     = [Unchanged (py ''a''), Removed (py ''b''), Unchanged (py ''c''), Added (py ''d'')]
   \<and> diff_summary (py ''a b c'') (py ''a c d'') = ([py ''d''], [py ''b''])
   \<and> sentence_diff_html (py ''a b c'') (py ''a c d'')
     = [py ''a'', py ''<span style='color:red'>b</span>'', py ''c'',
        py ''<span style='color:green'>d</span>'']"
proof -
  have s: "str_split (py ''a b c'') = [py ''a'', py ''b'', py ''c'']"
    "str_split (py ''a c d'') = [py ''a'', py ''c'', py ''d'']"
    by (simp_all add: str_split_def py_def isspace_def)
  have 1: "map classify (ndiff [py ''a'', py ''b'', py ''c''] [py ''a'', py ''c'', py ''d''])
     = [Unchanged (py ''a''), Removed (py ''b''), Unchanged (py ''c''), Added (py ''d'')]"
    unfolding abc_ndiff by (simp add: classify_def startswith_def py_def)
  have 2: "diff_summary (py ''a b c'') (py ''a c d'') = ([py ''d''], [py ''b''])"
    unfolding diff_summary_def s abc_ndiff by (simp add: summary_step_def startswith_def py_def)
  have 3: "sentence_diff_html (py ''a b c'') (py ''a c d'')
     = [py ''a'', py ''<span style='color:red'>b</span>'', py ''c'',
        py ''<span style='color:green'>d</span>'']"
    unfolding sentence_diff_html_def s abc_ndiff
    by (simp add: render_step_def startswith_def py_def)
  from abc_ndiff 1 2 3 show ?thesis by blast
qed

text \<open>
  C6. For every list of words X, \<open>ndiff\<close> of X against itself yields the words of X in
  order, each with the prefix of a word of both lists: every entry is Unchanged. For every
  text, the summary of lines 76 to 83 of the text against itself has no added and no removed
  word, and the rendering of lines 117 to 125 shows its words unmarked. This includes the
  lists of 200 words and more, where the matcher leaves frequent words out of its index.
  For instance [a, b, a] against itself gives Unchanged a, Unchanged b, Unchanged a, while
  [a] against [b] gives Removed a, Added b.
\<close>

theorem diff_self_all_unchanged:
  "ndiff X X = map (\<lambda>w. py ''  '' @ w) X
   \<and> map classify (ndiff X X) = map Unchanged X
   \<and> foldl summary_step ([], []) (ndiff X X) = ([], [])
   \<and> diff_summary t t = ([], [])
   \<and> sentence_diff_html t t = str_split t
   \<and> ndiff [py ''a'', py ''b'', py ''a''] [py ''a'', py ''b'', py ''a'']
     = [py ''  a'', py ''  b'', py ''  a'']
   \<and> map classify (ndiff [py ''a'', py ''b'', py ''a''] [py ''a'', py ''b'', py ''a''])
     = [Unchanged (py ''a''), Unchanged (py ''b''), Unchanged (py ''a'')]
   \<and> map classify (ndiff [py ''a''] [py ''b'']) = [Removed (py ''a''), Added (py ''b'')]"
proof -
  have 1: "map classify (ndiff X X) = map Unchanged X" for X
    by (simp add: ndiff_self classify_unchanged comp_def)
  have 2: "foldl summary_step ([], []) (ndiff X X) = ([], [])"
    by (simp add: ndiff_self summary_unchanged)
  have 3: "ndiff [py ''a'', py ''b'', py ''a''] [py ''a'', py ''b'', py ''a'']
     = [py ''  a'', py ''  b'', py ''  a'']"
    by (simp add: ndiff_self py_def)
  have 4: "map classify (ndiff [py ''a'', py ''b'', py ''a''] [py ''a'', py ''b'', py ''a''])
     = [Unchanged (py ''a''), Unchanged (py ''b''), Unchanged (py ''a'')]"
    by (simp add: 1)
  have 5: "map classify (ndiff [py ''a''] [py ''b'']) = [Removed (py ''a''), Added (py ''b'')]"
    unfolding ab_ndiff by (simp add: classify_def startswith_def py_def)
  from ndiff_self [of X] 1 [of X] 2 diff_summary_self [of t] sentence_diff_html_self [of t] 3 4 5
  show ?thesis by blast
qed

text \<open>
  C3. The claim: every entry of the edit script is an unchanged, an added or a removed
  token of one of the two inputs, in the rendered per-sentence diff too. On "Helo world"
  against "Hello world", \<open>ndiff\<close> yields the line "?    +" with a newline between the added
  word and the unchanged word. The loop of lines 119 to 125 takes its \<open>else\<close> branch on it
  and shows "   +" with the newline as an unmarked entry, which is a word of neither
  sentence. The row rendered for the original text "Helo world." and the corrected text
  "Hello world." holds this entry.
\<close>

theorem hint_line_rendered_as_entry:
  "ndiff [py ''Helo'', py ''world''] [py ''Hello'', py ''world'']
     = [py ''- Helo'', py ''+ Hello'', py ''?    +'' @ [10], py ''  world'']
   \<and> map classify (ndiff [py ''Helo'', py ''world''] [py ''Hello'', py ''world''])
     = [Removed (py ''Helo''), Added (py ''Hello''), Unchanged (py ''   +'' @ [10]),
        Unchanged (py ''world'')]
   \<and> sentence_diff_html (py ''Helo world'') (py ''Hello world'')
     = [py ''<span style='color:red'>Helo</span>'', py ''<span style='color:green'>Hello</span>'',
        py ''   +'' @ [10], py ''world'']
   \<and> py ''   +'' @ [10] \<notin> set (str_split (py ''Helo world''))
   \<and> py ''   +'' @ [10] \<notin> set (str_split (py ''Hello world''))
   \<and> map_sum id html_rows
         (main (\<lambda>t. if t = py ''Helo world.'' then py ''Hello world.'' else t) extract_with_ocr
            [[Some [Some [\<lparr>span_text = Some (py ''Helo world.''), span_angle = Some 0\<rparr>]]]])
     = Inr [py ''<p><b>Original:</b> Helo world<br><b>Corrected:</b> Hello world<br><b>Diff:</b> <span style='color:red'>Helo</span> <span style='color:green'>Hello</span>    +''
            @ [10] @ py '' world</p><hr>'']"
proof -
  have 1: "map classify (ndiff [py ''Helo'', py ''world''] [py ''Hello'', py ''world''])
     = [Removed (py ''Helo''), Added (py ''Hello''), Unchanged (py ''   +'' @ [10]),
        Unchanged (py ''world'')]"
    unfolding helo_ndiff by (simp add: classify_def startswith_def py_def)
  have 2: "py ''   +'' @ [10] \<notin> set (str_split (py ''Helo world''))"
    "py ''   +'' @ [10] \<notin> set (str_split (py ''Hello world''))"
    unfolding helo_split by (simp_all add: py_def)
  have e: "extract_with_pymupdf
       [[Some [Some [\<lparr>span_text = Some (py ''Helo world.''), span_angle = Some 0\<rparr>]]]]
     = (py ''Helo world.'', [])"
    by (simp add: extract_with_pymupdf_def page_step_def block_step_def line_step_def
        span_step_def Let_def get_or_def str_strip_def str_split_def py_def isspace_def)
  have ne: "py ''Helo world.'' \<noteq> []" by (simp add: py_def)
  have p: "sentence_pairs (py ''Helo world.'') (py ''Hello world.'')
     = [(py ''Helo world'', py ''Hello world'')]"
    by (simp add: sentence_pairs_def helo_sentences pad_def)
  have h: "highlight_tilted s [] = str_join (py '' '') (str_split s)" for s
    by (simp add: highlight_tilted_def highlight_loop_map)
  have r: "html_row [] (py ''Helo world'', py ''Hello world'')
     = py ''<p><b>Original:</b> Helo world<br><b>Corrected:</b> Hello world<br><b>Diff:</b> <span style='color:red'>Helo</span> <span style='color:green'>Hello</span>    +''
            @ [10] @ py '' world</p><hr>''"
    unfolding html_row_def prod.case h helo_split helo_html by (simp add: py_def)
  have 3: "map_sum id html_rows
         (main (\<lambda>t. if t = py ''Helo world.'' then py ''Hello world.'' else t) extract_with_ocr
            [[Some [Some [\<lparr>span_text = Some (py ''Helo world.''), span_angle = Some 0\<rparr>]]]])
     = Inr [py ''<p><b>Original:</b> Helo world<br><b>Corrected:</b> Hello world<br><b>Diff:</b> <span style='color:red'>Helo</span> <span style='color:green'>Hello</span>    +''
            @ [10] @ py '' world</p><hr>'']"
    unfolding main_def e prod.case
    by (simp add: select_text_def ne process_def Let_def case_prod_beta p r
        split: sum.split)
  from helo_ndiff 1 helo_html 2 3 show ?thesis by blast
qed

text \<open>
  C1. The claim: a failure of the OCR step is caught and recorded, the OCR text becomes
  the empty string, and the run completes with it. On a document of one page without text
  whose OCR raises, the failure is caught and recorded, but \<open>ocr_text\<close> stays unbound and
  line 71 raises \<open>NameError\<close>, whatever the corrector: the run stops there. The same
  happens when the text of the page is only whitespace, and when \<open>doc[0]\<close> itself raises.
  For comparison: when the OCR returns the empty string the run goes on with the empty
  text, and when the extracted text is not empty a failing OCR is recorded and the run
  completes.
\<close>

theorem ocr_failure_leaves_text_unbound:
  "main correct_text (\<lambda>_. Inl Raised) [[]] = Inl NameError
   \<and> main correct_text (\<lambda>_. Inl Raised)
        [[Some [Some [\<lparr>span_text = Some (py ''  ''), span_angle = None\<rparr>]]]] = Inl NameError
   \<and> main correct_text extract_with_ocr [] = Inl NameError
   \<and> main correct_text (\<lambda>_. Inr []) [[]]
       = Inr (process correct_text [] [Agent1 0 [], Agent2 0] [])
   \<and> map_sum id agent_report
        (main (\<lambda>t. t) (\<lambda>_. Inl Raised)
           [[Some [Some [\<lparr>span_text = Some (py ''ok''), span_angle = None\<rparr>]]]])
       = Inr [Agent1 1 [], Agent2_Failed, Agent3 1, Agent4 [] [] []]"
proof -
  have e: "extract_with_pymupdf [[]] = ([], [])" "extract_with_pymupdf [] = ([], [])"
    "extract_with_pymupdf [[Some [Some [\<lparr>span_text = Some (py ''  ''), span_angle = None\<rparr>]]]]
      = ([], [])"
    "extract_with_pymupdf [[Some [Some [\<lparr>span_text = Some (py ''ok''), span_angle = None\<rparr>]]]]
      = (py ''ok'', [])"
    by (simp_all add: extract_with_pymupdf_def page_step_def block_step_def line_step_def
        span_step_def Let_def get_or_def str_strip_def str_split_def py_def isspace_def)
  have s: "str_split [] = []" "str_split (py ''ok'') = [py ''ok'']" "py ''ok'' \<noteq> []"
    by (simp_all add: str_split_def py_def isspace_def)
  have 1: "main correct_text (\<lambda>_. Inl Raised) [[]] = Inl NameError"
    unfolding main_def e prod.case by (simp add: try_ocr_def select_text_def)
  have 2: "main correct_text (\<lambda>_. Inl Raised)
        [[Some [Some [\<lparr>span_text = Some (py ''  ''), span_angle = None\<rparr>]]]] = Inl NameError"
    unfolding main_def e prod.case by (simp add: try_ocr_def select_text_def)
  have 3: "main correct_text extract_with_ocr [] = Inl NameError"
    unfolding main_def e prod.case by (simp add: try_ocr_def select_text_def)
  have 4: "main correct_text (\<lambda>_. Inr []) [[]]
       = Inr (process correct_text [] [Agent1 0 [], Agent2 0] [])"
    unfolding main_def e prod.case by (simp add: try_ocr_def select_text_def s)
  have 5: "map_sum id agent_report
        (main (\<lambda>t. t) (\<lambda>_. Inl Raised)
           [[Some [Some [\<lparr>span_text = Some (py ''ok''), span_angle = None\<rparr>]]]])
       = Inr [Agent1 1 [], Agent2_Failed, Agent3 1, Agent4 [] [] []]"
    unfolding main_def e prod.case
    by (simp add: try_ocr_def select_text_def s process_def Let_def diff_summary_self)
  from 1 2 3 4 5 show ?thesis by blast
qed





end
